theory Spec2Isabelle
  imports
    Main
    "HOL-Library.Word"
    "HOL-Library.Multiset"
    "HOL-Library.Product_Lexorder"
    "HOL-Library.List_Lexorder"
begin

section \<open>The local marker graph of shasta (LocalMarkerGraph2.cpp)\<close>

subsection \<open>Identifiers and the external tables\<close>

text \<open>
  \<open>MarkerId\<close> is a 64-bit and a marker position a 32-bit unsigned integer; the loops of
  \<open>storeEdgeInfo\<close> step them with \<open>++\<close> until \<open>!=\<close> fails, so they are words here.
  An \<open>OrientedReadId\<close> is only compared, and decoded by \<open>getReadId\<close>, \<open>getStrand\<close> and
  \<open>getValue\<close>: it is kept as the natural number \<open>getValue\<close> returns.
\<close>

type_synonym MarkerId = "64 word"
type_synonym OrientedReadId = nat
type_synonym GlobalMarkerGraphVertexId = nat
type_synonym vertex_descriptor = nat
type_synonym edge_descriptor = nat

text \<open>
  Modelled from the spec: \<open>ReadId.hpp\<close> is not among the sources. An oriented read is a
  read paired with a strand; the pair is held in one integer, the strand in its lowest bit.
\<close>

definition getReadId :: "OrientedReadId \<Rightarrow> nat" where
  "getReadId orid = orid div 2"

definition getStrand :: "OrientedReadId \<Rightarrow> nat" where
  "getStrand orid = orid mod 2"

text \<open>
  Modelled from the spec: \<open>Base.hpp\<close> is not among the sources. A base is one of A, C, G, T,
  and \<open>complementInPlace\<close> flips a base to its complement.
\<close>

datatype Base = BaseA | BaseC | BaseG | BaseT

fun complement :: "Base \<Rightarrow> Base" where
  "complement BaseA = BaseT"
| "complement BaseC = BaseG"
| "complement BaseG = BaseC"
| "complement BaseT = BaseA"

fun Base_value :: "Base \<Rightarrow> nat" where
  "Base_value BaseA = 0"
| "Base_value BaseC = 1"
| "Base_value BaseG = 2"
| "Base_value BaseT = 3"

record CompressedMarker =
  kmerId :: nat
  position :: "32 word"

text \<open>
  The members of \<open>LocalMarkerGraph2\<close> that refer to the external tables: the marker length
  \<open>k\<close>, the reads, the markers of all oriented reads (a vector of vectors, stored
  contiguously, so that a \<open>MarkerId\<close> is an index into the concatenation) and the global
  marker graph vertex of each marker. The \<open>invalid\<close> field stands for the constant
  \<open>invalidCompressedGlobalMarkerGraphVertexId\<close>, whose declaration is not among the sources.
\<close>

record Tables =
  k :: "32 word"
  reads :: "Base list list"
  markers :: "CompressedMarker list list"
  globalMarkerGraphVertex :: "nat list"
  invalid :: nat

text \<open>
  None of the tables checks its index. A read outside a table is undefined behaviour in the
  source; here it is the result \<open>None\<close>.
\<close>

definition at :: "'a list \<Rightarrow> nat \<Rightarrow> 'a option" where
  "at xs i = (if i < length xs then Some (xs ! i) else None)"

text \<open>\<open>markers.begin()[markerId]\<close>\<close>

definition markerAt :: "Tables \<Rightarrow> MarkerId \<Rightarrow> CompressedMarker option" where
  "markerAt t mid = at (concat (markers t)) (unat mid)"

text \<open>\<open>markers.begin(i)\<close> as an offset from \<open>markers.begin()\<close>, and \<open>markers.begin(i)[j]\<close>.\<close>

definition markersBegin :: "Tables \<Rightarrow> nat \<Rightarrow> nat" where
  "markersBegin t i = length (concat (take i (markers t)))"

definition markerOf :: "Tables \<Rightarrow> OrientedReadId \<Rightarrow> 32 word \<Rightarrow> CompressedMarker option" where
  "markerOf t orid ord =
     (if orid < length (markers t)
      then at (concat (markers t)) (markersBegin t orid + unat ord)
      else None)"

text \<open>
  Modelled from the spec: \<open>findMarkerId.hpp\<close> is not among the sources. The marker source
  maps a global marker id to the oriented read that holds the marker and to the ordinal of
  the marker in that read.
\<close>

fun findMarkerIdFrom :: "'a list list \<Rightarrow> nat \<Rightarrow> nat \<Rightarrow> (nat \<times> nat) option" where
  "findMarkerIdFrom [] i m = None"
| "findMarkerIdFrom (x # xs) i m =
     (if m < length x then Some (i, m) else findMarkerIdFrom xs (Suc i) (m - length x))"

definition findMarkerId :: "MarkerId \<Rightarrow> Tables \<Rightarrow> (OrientedReadId \<times> 32 word) option" where
  "findMarkerId mid t =
     (case findMarkerIdFrom (markers t) 0 (unat mid) of
        None \<Rightarrow> None
      | Some (i, j) \<Rightarrow> Some (i, word_of_nat j))"

subsection \<open>Vertices, edges and the graph\<close>

record MarkerInfo =
  markerId :: MarkerId
  orientedReadId :: OrientedReadId
  ordinal :: "32 word"

record LocalMarkerGraph2Vertex =
  vertexId :: GlobalMarkerGraphVertexId
  distance :: int
  markerInfos :: "MarkerInfo list"

record Sequence =
  overlappingBaseCount :: "8 word"
  sequence :: "Base list"

record Info =
  info_orientedReadId :: OrientedReadId
  ordinals0 :: "32 word"
  ordinals1 :: "32 word"

text \<open>
  An edge with its two end points. The vertex and edge descriptors of the graph are the
  positions in the vertex and edge lists, which are kept in the order of creation: the
  order in which the source enumerates vertices, edges and the edges at a vertex.
\<close>

record LocalMarkerGraph2Edge =
  source :: vertex_descriptor
  target :: vertex_descriptor
  infos :: "(Sequence \<times> Info list) list"
  isSpanningTreeEdge :: bool
  isSpanningTreeBestPathEdge :: bool

record LocalMarkerGraph2 =
  vertices :: "LocalMarkerGraph2Vertex list"
  edges :: "LocalMarkerGraph2Edge list"
  vertexMap :: "GlobalMarkerGraphVertexId \<rightharpoonup> vertex_descriptor"

subsection \<open>The sequence between two markers\<close>

text \<open>\<open>read.get(position)\<close> for a 32-bit position.\<close>

definition get :: "Base list \<Rightarrow> 32 word \<Rightarrow> Base option" where
  "get read p = at read (unat p)"

text \<open>
  The loop \<open>for(uint32_t position = marker0.position+k; position != marker1.position;
  position++)\<close>, which appends one base of the oriented read at each step.
\<close>

function basesBetween :: "Base list \<Rightarrow> 32 word \<Rightarrow> nat \<Rightarrow> 32 word \<Rightarrow> 32 word \<Rightarrow> Base list option" where
  "basesBetween read readLength strand p pEnd =
     (if p = pEnd then Some []
      else
        (case (if strand = 0 then get read p
               else map_option complement (get read (readLength - 1 - p))) of
           None \<Rightarrow> None
         | Some base \<Rightarrow>
             (case basesBetween read readLength strand (p + 1) pEnd of
                None \<Rightarrow> None
              | Some bases \<Rightarrow> Some (base # bases))))"
  by pat_completeness auto
termination
proof (relation "measure (\<lambda>(read, readLength, strand, p, pEnd). unat (pEnd - p))")
  show "wf (measure (\<lambda>(read, readLength, strand, p, pEnd). unat (pEnd - p)))"
    by simp
next
  fix read :: "Base list" and readLength :: "32 word" and strand :: nat
    and p pEnd :: "32 word" and x2 :: Base
  assume "p \<noteq> pEnd"
  then have "pEnd - p \<noteq> 0" by simp
  then have less: "unat (pEnd - p - 1) < unat (pEnd - p)"
    by (simp add: unat_minus_one unat_gt_0)
  have eq: "pEnd - (p + 1) = pEnd - p - 1" by simp
  show "((read, readLength, strand, p + 1, pEnd), (read, readLength, strand, p, pEnd))
      \<in> measure (\<lambda>(read, readLength, strand, p, pEnd). unat (pEnd - p))"
    using less by (simp only: in_measure prod.case eq)
qed

declare basesBetween.simps [simp del]

text \<open>
  The block "Fill in the sequence information", which both overloads of \<open>storeEdgeInfo\<close>
  contain verbatim.
\<close>

definition fillSequence ::
  "Tables \<Rightarrow> OrientedReadId \<Rightarrow> CompressedMarker \<Rightarrow> CompressedMarker \<Rightarrow> Sequence option" where
  "fillSequence t orid marker0 marker1 =
     (if position marker1 \<le> position marker0 + k t
      then Some \<lparr>overlappingBaseCount = ucast (position marker0 + k t - position marker1),
                 sequence = []\<rparr>
      else
        (case at (reads t) (getReadId orid) of
           None \<Rightarrow> None
         | Some read \<Rightarrow>
             (case basesBetween read (word_of_nat (length read)) (getStrand orid)
                     (position marker0 + k t) (position marker1) of
                None \<Rightarrow> None
              | Some bases \<Rightarrow> Some \<lparr>overlappingBaseCount = 0, sequence = bases\<rparr>)))"

subsection \<open>Sequence aggregation: \<open>storeEdgeInfo\<close>\<close>

text \<open>
  Modelled from the spec: the comparison of \<open>Sequence\<close> values is declared in
  \<open>LocalMarkerGraph2.hpp\<close>, which is not among the sources. A \<open>Sequence\<close> is a totally
  ordered key; its two fields are compared lexicographically.
\<close>

definition Sequence_key :: "Sequence \<Rightarrow> nat \<times> nat list" where
  "Sequence_key s = (unat (overlappingBaseCount s), map Base_value (sequence s))"

type_synonym SequenceTable = "(Sequence \<times> Info list) list"

text \<open>
  \<open>sequenceTable[sequence].push_back(info)\<close> on the \<open>std::map\<close>, kept as the list of its
  entries in increasing key order. Two keys are the same entry when neither is less than
  the other.
\<close>

fun push_back :: "SequenceTable \<Rightarrow> Sequence \<Rightarrow> Info \<Rightarrow> SequenceTable" where
  "push_back [] s info = [(s, [info])]"
| "push_back ((s', is) # table) s info =
     (if Sequence_key s < Sequence_key s' then (s, [info]) # (s', is) # table
      else if Sequence_key s' < Sequence_key s then (s', is) # push_back table s info
      else (s', is @ [info]) # table)"

text \<open>
  \<open>std::sort\<close> with a comparison object belongs to the C++ standard library and is taken by
  its contract: it returns the elements it was given, rearranged so that the comparison
  puts no element before an earlier one. The order in which it leaves elements that compare
  equal is not specified, so the sort is a parameter \<open>std_sort\<close> of every function that
  calls it.
\<close>

definition std_sort_contract ::
  "(('a \<Rightarrow> 'a \<Rightarrow> bool) \<Rightarrow> 'a list \<Rightarrow> 'a list) \<Rightarrow> ('a \<Rightarrow> 'a \<Rightarrow> bool) \<Rightarrow> bool" where
  "std_sort_contract std_sort cmp =
     (\<forall>xs. mset (std_sort cmp xs) = mset xs
        \<and> sorted_wrt (\<lambda>x y. \<not> cmp y x) (std_sort cmp xs))"

text \<open>
  Modelled from the spec: \<open>orderPairs.hpp\<close> is not among the sources. The groups are sorted
  by decreasing size of the list of observations, the edges by decreasing coverage.
\<close>

definition OrderPairsBySizeOfSecondGreater :: "'a \<times> 'b list \<Rightarrow> 'a \<times> 'b list \<Rightarrow> bool" where
  "OrderPairsBySizeOfSecondGreater x y = (length (snd x) > length (snd y))"

definition OrderPairsBySecondOnlyGreater :: "'a \<times> nat \<Rightarrow> 'a \<times> nat \<Rightarrow> bool" where
  "OrderPairsBySecondOnlyGreater x y = (snd x > snd y)"

text \<open>
  The loop \<open>for(MarkerId markerId = markerId0+1; markerId != markerId1; markerId++)\<close>
  that looks for a marker with a vertex of the global marker graph.
\<close>

function interveningVertexFound :: "Tables \<Rightarrow> MarkerId \<Rightarrow> MarkerId \<Rightarrow> bool option" where
  "interveningVertexFound t mid markerId1 =
     (if mid = markerId1 then Some False
      else
        (case at (globalMarkerGraphVertex t) (unat mid) of
           None \<Rightarrow> None
         | Some vertex \<Rightarrow>
             if vertex \<noteq> invalid t then Some True
             else interveningVertexFound t (mid + 1) markerId1))"
  by pat_completeness auto
termination
proof (relation "measure (\<lambda>(t, mid, markerId1). unat (markerId1 - mid))")
  show "wf (measure (\<lambda>(t, mid, markerId1). unat (markerId1 - mid)))"
    by simp
next
  fix t :: Tables and mid markerId1 :: MarkerId and x2 :: nat
  assume "mid \<noteq> markerId1"
  then have "markerId1 - mid \<noteq> 0" by simp
  then have less: "unat (markerId1 - mid - 1) < unat (markerId1 - mid)"
    by (simp add: unat_minus_one unat_gt_0)
  have eq: "markerId1 - (mid + 1) = markerId1 - mid - 1" by simp
  show "((t, mid + 1, markerId1), (t, mid, markerId1))
      \<in> measure (\<lambda>(t, mid, markerId1). unat (markerId1 - mid))"
    using less by (simp only: in_measure prod.case eq)
qed

declare interveningVertexFound.simps [simp del]

text \<open>
  The merge scan over the marker lists of the two vertices. The two lists are the parts
  from \<open>it0\<close> and \<open>it1\<close> to the ends; a streak is the longest prefix with the oriented read
  of its first element, and the scan goes on behind the two streaks.
\<close>

function scanLoop ::
  "Tables \<Rightarrow> SequenceTable \<Rightarrow> MarkerInfo list \<Rightarrow> MarkerInfo list \<Rightarrow> SequenceTable option" where
  "scanLoop t table [] ys = Some table"
| "scanLoop t table (x # xs) [] = Some table"
| "scanLoop t table (x # xs) (y # ys) =
     (if orientedReadId x < orientedReadId y then scanLoop t table xs (y # ys)
      else if orientedReadId y < orientedReadId x then scanLoop t table (x # xs) ys
      else
        let orid = orientedReadId x;
            it0StreakEnd = dropWhile (\<lambda>m. orientedReadId m = orid) (x # xs);
            it1StreakEnd = dropWhile (\<lambda>m. orientedReadId m = orid) (y # ys)
        in
          if length (x # xs) - length it0StreakEnd = 1
             \<and> length (y # ys) - length it1StreakEnd = 1
             \<and> ordinal x < ordinal y
          then
            (case interveningVertexFound t (markerId x + 1) (markerId y) of
               None \<Rightarrow> None
             | Some True \<Rightarrow> scanLoop t table it0StreakEnd it1StreakEnd
             | Some False \<Rightarrow>
                 (case markerAt t (markerId x) of
                    None \<Rightarrow> None
                  | Some marker0 \<Rightarrow>
                      (case markerAt t (markerId y) of
                         None \<Rightarrow> None
                       | Some marker1 \<Rightarrow>
                           (case fillSequence t orid marker0 marker1 of
                              None \<Rightarrow> None
                            | Some s \<Rightarrow>
                                scanLoop t
                                  (push_back table s
                                     \<lparr>info_orientedReadId = orid,
                                      ordinals0 = ordinal x, ordinals1 = ordinal y\<rparr>)
                                  it0StreakEnd it1StreakEnd))))
          else scanLoop t table it0StreakEnd it1StreakEnd)"
  by pat_completeness auto
termination
proof (relation "measure (\<lambda>(t, table, xs, ys). length xs + length ys)")
  show "wf (measure (\<lambda>(t, table, xs, ys). length xs + length ys))"
    by simp
qed (auto simp: less_Suc_eq_le intro: add_mono length_dropWhile_le le_SucI)

declare scanLoop.simps [simp del]

text \<open>The loop of the second overload over the given observations.\<close>

fun infoLoop :: "Tables \<Rightarrow> SequenceTable \<Rightarrow> Info list \<Rightarrow> SequenceTable option" where
  "infoLoop t table [] = Some table"
| "infoLoop t table (info # infoVector) =
     (case markerOf t (info_orientedReadId info) (ordinals0 info) of
        None \<Rightarrow> None
      | Some marker0 \<Rightarrow>
          (case markerOf t (info_orientedReadId info) (ordinals1 info) of
             None \<Rightarrow> None
           | Some marker1 \<Rightarrow>
               (case fillSequence t (info_orientedReadId info) marker0 marker1 of
                  None \<Rightarrow> None
                | Some s \<Rightarrow> infoLoop t (push_back table s info) infoVector)))"

text \<open>
  The observations that the merge scan accepts, with their sequences, in the order in which
  it accepts them: the scan as above, listing what it stores. \<open>store\<close> puts such a list into
  a sequence table.
\<close>

function accepted ::
  "Tables \<Rightarrow> MarkerInfo list \<Rightarrow> MarkerInfo list \<Rightarrow> (Sequence \<times> Info) list option" where
  "accepted t [] ys = Some []"
| "accepted t (x # xs) [] = Some []"
| "accepted t (x # xs) (y # ys) =
     (if orientedReadId x < orientedReadId y then accepted t xs (y # ys)
      else if orientedReadId y < orientedReadId x then accepted t (x # xs) ys
      else
        let orid = orientedReadId x;
            it0StreakEnd = dropWhile (\<lambda>m. orientedReadId m = orid) (x # xs);
            it1StreakEnd = dropWhile (\<lambda>m. orientedReadId m = orid) (y # ys)
        in
          if length (x # xs) - length it0StreakEnd = 1
             \<and> length (y # ys) - length it1StreakEnd = 1
             \<and> ordinal x < ordinal y
          then
            (case interveningVertexFound t (markerId x + 1) (markerId y) of
               None \<Rightarrow> None
             | Some True \<Rightarrow> accepted t it0StreakEnd it1StreakEnd
             | Some False \<Rightarrow>
                 (case markerAt t (markerId x) of
                    None \<Rightarrow> None
                  | Some marker0 \<Rightarrow>
                      (case markerAt t (markerId y) of
                         None \<Rightarrow> None
                       | Some marker1 \<Rightarrow>
                           (case fillSequence t orid marker0 marker1 of
                              None \<Rightarrow> None
                            | Some s \<Rightarrow>
                                map_option
                                  (Cons (s, \<lparr>info_orientedReadId = orid,
                                             ordinals0 = ordinal x, ordinals1 = ordinal y\<rparr>))
                                  (accepted t it0StreakEnd it1StreakEnd)))))
          else accepted t it0StreakEnd it1StreakEnd)"
  by pat_completeness auto
termination
proof (relation "measure (\<lambda>(t, xs, ys). length xs + length ys)")
  show "wf (measure (\<lambda>(t, xs, ys). length xs + length ys))"
    by simp
qed (auto simp: less_Suc_eq_le intro: add_mono length_dropWhile_le le_SucI)

declare accepted.simps [simp del]

definition store :: "SequenceTable \<Rightarrow> (Sequence \<times> Info) list \<Rightarrow> SequenceTable" where
  "store table pairs = foldl (\<lambda>table p. push_back table (fst p) (snd p)) table pairs"

text \<open>
  A vertex gets its marker information from \<open>addVertex\<close>, which takes the oriented read and
  the ordinal of each marker from \<open>findMarkerId\<close>. The ordinals are 32-bit, so an oriented
  read has at most \<open>2 ^ 32\<close> markers.
\<close>

definition consistent :: "Tables \<Rightarrow> MarkerInfo \<Rightarrow> bool" where
  "consistent t m = (findMarkerId (markerId m) t = Some (orientedReadId m, ordinal m))"

definition wf_tables :: "Tables \<Rightarrow> bool" where
  "wf_tables t = (\<forall>ms \<in> set (markers t). length ms \<le> 2 ^ 32)"

text \<open>
  The conditions under which an observation counts for an edge: its oriented read occurs
  exactly once in each of the two marker lists, the ordinal in the source vertex is less
  than the ordinal in the target vertex, these two ordinals are the ones observed, and no
  marker between the two markers has a vertex of the global marker graph.
\<close>

definition qualifies :: "Tables \<Rightarrow> MarkerInfo list \<Rightarrow> MarkerInfo list \<Rightarrow> Info \<Rightarrow> bool" where
  "qualifies t xs ys info =
     (\<exists>x y. filter (\<lambda>m. orientedReadId m = info_orientedReadId info) xs = [x]
        \<and> filter (\<lambda>m. orientedReadId m = info_orientedReadId info) ys = [y]
        \<and> ordinals0 info = ordinal x \<and> ordinals1 info = ordinal y
        \<and> ordinal x < ordinal y
        \<and> \<not> (\<exists>mid vertex. markerId x < mid \<and> mid < markerId y
              \<and> at (globalMarkerGraphVertex t) (unat mid) = Some vertex
              \<and> vertex \<noteq> invalid t))"

text \<open>
  The first overload: from the markers of the two vertices of the edge. An edge of the
  source always has its two vertices; an edge or vertex descriptor outside the graph gives
  \<open>None\<close>.
\<close>

definition storeEdgeInfo ::
  "((Sequence \<times> Info list \<Rightarrow> Sequence \<times> Info list \<Rightarrow> bool) \<Rightarrow> SequenceTable \<Rightarrow> SequenceTable)
     \<Rightarrow> Tables \<Rightarrow> edge_descriptor \<Rightarrow> LocalMarkerGraph2 \<Rightarrow> LocalMarkerGraph2 option" where
  "storeEdgeInfo std_sort t e graph =
     (case at (edges graph) e of
        None \<Rightarrow> None
      | Some edge \<Rightarrow>
          (case at (vertices graph) (source edge) of
             None \<Rightarrow> None
           | Some vertex0 \<Rightarrow>
               (case at (vertices graph) (target edge) of
                  None \<Rightarrow> None
                | Some vertex1 \<Rightarrow>
                    (case scanLoop t [] (markerInfos vertex0) (markerInfos vertex1) of
                       None \<Rightarrow> None
                     | Some sequenceTable \<Rightarrow>
                         Some (graph\<lparr>edges := (edges graph)
                           [e := edge\<lparr>infos :=
                              std_sort OrderPairsBySizeOfSecondGreater sequenceTable\<rparr>]\<rparr>)))))"

text \<open>The second overload: from the observations that caused the edge to be created.\<close>

definition storeEdgeInfo_infoVector ::
  "((Sequence \<times> Info list \<Rightarrow> Sequence \<times> Info list \<Rightarrow> bool) \<Rightarrow> SequenceTable \<Rightarrow> SequenceTable)
     \<Rightarrow> Tables \<Rightarrow> edge_descriptor \<Rightarrow> Info list \<Rightarrow> LocalMarkerGraph2 \<Rightarrow> LocalMarkerGraph2 option" where
  "storeEdgeInfo_infoVector std_sort t e infoVector graph =
     (case at (edges graph) e of
        None \<Rightarrow> None
      | Some edge \<Rightarrow>
          (case infoLoop t [] infoVector of
             None \<Rightarrow> None
           | Some sequenceTable \<Rightarrow>
               Some (graph\<lparr>edges := (edges graph)
                 [e := edge\<lparr>infos :=
                    std_sort OrderPairsBySizeOfSecondGreater sequenceTable\<rparr>]\<rparr>)))"

text \<open>
  What holds of the \<open>std::map\<close> between two insertions: its entries are in strictly
  increasing key order, and every entry holds at least one observation.
\<close>

definition keysSorted :: "SequenceTable \<Rightarrow> bool" where
  "keysSorted table =
     (sorted_wrt (\<lambda>a b. Sequence_key (fst a) < Sequence_key (fst b)) table
      \<and> (\<forall>g \<in> set table. snd g \<noteq> []))"

subsection \<open>Vertices: \<open>findVertex\<close> and \<open>addVertex\<close>\<close>

datatype error = AssertionFailed | NotADag | OutOfRange

text \<open>\<open>null_vertex()\<close> is \<open>None\<close>.\<close>

definition findVertex ::
  "LocalMarkerGraph2 \<Rightarrow> GlobalMarkerGraphVertexId \<Rightarrow> bool \<times> vertex_descriptor option" where
  "findVertex graph vid =
     (case vertexMap graph vid of
        None \<Rightarrow> (False, None)
      | Some v \<Rightarrow> (True, Some v))"

text \<open>The loop of \<open>addVertex\<close> that fills in the marker information.\<close>

fun fillMarkerInfos :: "Tables \<Rightarrow> MarkerId list \<Rightarrow> MarkerInfo list option" where
  "fillMarkerInfos t [] = Some []"
| "fillMarkerInfos t (mid # vertexMarkers) =
     (case findMarkerId mid t of
        None \<Rightarrow> None
      | Some (orid, ord) \<Rightarrow>
          (case fillMarkerInfos t vertexMarkers of
             None \<Rightarrow> None
           | Some rest \<Rightarrow>
               Some (\<lparr>markerId = mid, orientedReadId = orid, ordinal = ord\<rparr> # rest)))"

text \<open>
  \<open>CZI_ASSERT\<close> throws when its condition is false. The new vertex goes to the end of the
  vertex list, and its descriptor is its position there.
\<close>

definition addVertex ::
  "Tables \<Rightarrow> GlobalMarkerGraphVertexId \<Rightarrow> int \<Rightarrow> MarkerId list \<Rightarrow> LocalMarkerGraph2
     \<Rightarrow> error + (vertex_descriptor \<times> LocalMarkerGraph2)" where
  "addVertex t vid dist vertexMarkers graph =
     (if vertexMap graph vid \<noteq> None then Inl AssertionFailed
      else
        let v = length (vertices graph) in
        (case fillMarkerInfos t vertexMarkers of
           None \<Rightarrow> Inl OutOfRange
         | Some vertexMarkerInfos \<Rightarrow>
             Inr (v, graph\<lparr>
               vertices := vertices graph @
                 [\<lparr>vertexId = vid, distance = dist, markerInfos = vertexMarkerInfos\<rparr>],
               vertexMap := (vertexMap graph)(vid \<mapsto> v)\<rparr>)))"

subsection \<open>The optimal spanning tree\<close>

text \<open>
  Modelled from the spec: \<open>coverage()\<close> is declared in \<open>LocalMarkerGraph2.hpp\<close>, which is not
  among the sources. It is the total count of \<open>Info\<close> entries across all groups.
\<close>

definition coverage :: "LocalMarkerGraph2Edge \<Rightarrow> nat" where
  "coverage edge = sum_list (map (\<lambda>p. length (snd p)) (infos edge))"

text \<open>
  \<open>boost::disjoint_sets\<close> belongs to the Boost library and is taken by its contract: the
  structure is a partition of \<open>0..<n\<close>, \<open>find_set\<close> returns the representative of the set
  of an element, and \<open>union_set\<close> merges two sets. The partition is kept as the list of the
  representatives of all elements. The source only compares representatives, so it does
  not matter which one a merged set gets.
\<close>

type_synonym disjoint_sets = "nat list"

definition make_sets :: "nat \<Rightarrow> disjoint_sets" where
  "make_sets n = [0..<n]"

definition find_set :: "disjoint_sets \<Rightarrow> nat \<Rightarrow> nat" where
  "find_set ds i = ds ! i"

definition union_set :: "disjoint_sets \<Rightarrow> nat \<Rightarrow> nat \<Rightarrow> disjoint_sets" where
  "union_set ds i j = map (\<lambda>c. if c = find_set ds j then find_set ds i else c) ds"

text \<open>
  One pass of the loop over the sorted edges. The map from vertex descriptors to
  \<open>0..<n\<close> that the source builds is the identity, the descriptors being the positions
  in the vertex list.
\<close>

definition spanningTreeStep ::
  "disjoint_sets \<times> LocalMarkerGraph2Edge list \<Rightarrow> edge_descriptor \<times> nat
     \<Rightarrow> disjoint_sets \<times> LocalMarkerGraph2Edge list" where
  "spanningTreeStep state p =
     (let disjointSets = fst state; es = snd state;
          e = fst p;
          i0 = source (es ! e);
          i1 = target (es ! e);
          component0 = find_set disjointSets i0;
          component1 = find_set disjointSets i1
      in if component0 \<noteq> component1
         then (union_set disjointSets i0 i1, es[e := (es ! e)\<lparr>isSpanningTreeEdge := True\<rparr>])
         else (disjointSets, es))"

definition edgeTable ::
  "((edge_descriptor \<times> nat \<Rightarrow> edge_descriptor \<times> nat \<Rightarrow> bool)
       \<Rightarrow> (edge_descriptor \<times> nat) list \<Rightarrow> (edge_descriptor \<times> nat) list)
     \<Rightarrow> LocalMarkerGraph2Edge list \<Rightarrow> (edge_descriptor \<times> nat) list" where
  "edgeTable std_sort es =
     std_sort OrderPairsBySecondOnlyGreater (map (\<lambda>e. (e, coverage (es ! e))) [0..<length es])"

text \<open>The first loop marks all edges as not part of the optimal spanning tree.\<close>

definition clearFlags :: "LocalMarkerGraph2Edge list \<Rightarrow> LocalMarkerGraph2Edge list" where
  "clearFlags es = map (\<lambda>edge. edge\<lparr>isSpanningTreeEdge := False\<rparr>) es"

definition computeOptimalSpanningTree ::
  "((edge_descriptor \<times> nat \<Rightarrow> edge_descriptor \<times> nat \<Rightarrow> bool)
       \<Rightarrow> (edge_descriptor \<times> nat) list \<Rightarrow> (edge_descriptor \<times> nat) list)
     \<Rightarrow> LocalMarkerGraph2 \<Rightarrow> LocalMarkerGraph2" where
  "computeOptimalSpanningTree std_sort graph =
     (let es = clearFlags (edges graph);
          n = length (vertices graph)
      in graph\<lparr>edges :=
           snd (foldl spanningTreeStep (make_sets n, es) (edgeTable std_sort es))\<rparr>)"

text \<open>
  An edge of the source always has its two vertices in the graph. In the lists of this
  model that is a condition on the graph.
\<close>

definition wf_graph :: "LocalMarkerGraph2 \<Rightarrow> bool" where
  "wf_graph graph =
     (\<forall>edge \<in> set (edges graph).
        source edge < length (vertices graph) \<and> target edge < length (vertices graph))"

text \<open>
  The spanning tree as an undirected graph: a walk goes along edges in either direction
  (\<open>True\<close> from source to target), a cycle is a closed walk of at least one edge that uses
  no edge twice, and the connected components of the whole graph are the classes of
  vertices joined by walks.
\<close>

fun walk ::
  "LocalMarkerGraph2Edge list \<Rightarrow> vertex_descriptor \<Rightarrow> (edge_descriptor \<times> bool) list
     \<Rightarrow> vertex_descriptor \<Rightarrow> bool" where
  "walk es u [] v = (u = v)"
| "walk es u (step # steps) v =
     (fst step < length es \<and>
      (if snd step
       then source (es ! fst step) = u \<and> walk es (target (es ! fst step)) steps v
       else target (es ! fst step) = u \<and> walk es (source (es ! fst step)) steps v))"

definition spanningTreeWalk ::
  "LocalMarkerGraph2Edge list \<Rightarrow> vertex_descriptor \<Rightarrow> (edge_descriptor \<times> bool) list
     \<Rightarrow> vertex_descriptor \<Rightarrow> bool" where
  "spanningTreeWalk es u steps v =
     (walk es u steps v \<and> (\<forall>step \<in> set steps. isSpanningTreeEdge (es ! fst step)))"

definition spanningTreeCycle ::
  "LocalMarkerGraph2Edge list \<Rightarrow> vertex_descriptor \<Rightarrow> (edge_descriptor \<times> bool) list \<Rightarrow> bool" where
  "spanningTreeCycle es u steps =
     (steps \<noteq> [] \<and> distinct (map fst steps) \<and> spanningTreeWalk es u steps u)"

definition connected :: "LocalMarkerGraph2 \<Rightarrow> vertex_descriptor \<Rightarrow> vertex_descriptor \<Rightarrow> bool" where
  "connected graph u v = (\<exists>steps. walk (edges graph) u steps v)"

definition connectedComponents :: "LocalMarkerGraph2 \<Rightarrow> vertex_descriptor set set" where
  "connectedComponents graph =
     (\<lambda>u. {v. v < length (vertices graph) \<and> connected graph u v})
       ` {u. u < length (vertices graph)}"

definition spanningTreeEdges :: "LocalMarkerGraph2 \<Rightarrow> edge_descriptor set" where
  "spanningTreeEdges graph =
     {e. e < length (edges graph) \<and> isSpanningTreeEdge (edges graph ! e)}"

text \<open>The spanning tree as a directed graph: the pairs of source and target of its edges.\<close>

definition spanningTreeRel :: "LocalMarkerGraph2Edge list \<Rightarrow> (vertex_descriptor \<times> vertex_descriptor) set" where
  "spanningTreeRel es =
     {(source (es ! e), target (es ! e)) | e. e < length es \<and> isSpanningTreeEdge (es ! e)}"

text \<open>
  What holds between two passes of the loop over the sorted edges, \<open>processed\<close> being the
  edges done: the edges differ from the cleared ones in the flag only; only edges done are
  in the tree; every set has one representative; the end points of a tree edge and of an
  edge done are in the same set; a vertex is joined to its representative by a walk in the
  tree; the tree has no cycle, undirected or directed; and the tree edges and the sets
  together are as many as the vertices.
\<close>

definition spanningTreeInv ::
  "nat \<Rightarrow> LocalMarkerGraph2Edge list \<Rightarrow> edge_descriptor list
     \<Rightarrow> disjoint_sets \<times> LocalMarkerGraph2Edge list \<Rightarrow> bool" where
  "spanningTreeInv n es0 processed state =
     (length (fst state) = n
      \<and> clearFlags (snd state) = es0
      \<and> (\<forall>e < length es0. isSpanningTreeEdge (snd state ! e) \<longrightarrow> e \<in> set processed)
      \<and> (\<forall>u < n. fst state ! u < n \<and> fst state ! (fst state ! u) = fst state ! u)
      \<and> (\<forall>e < length es0. isSpanningTreeEdge (snd state ! e) \<longrightarrow>
            fst state ! source (es0 ! e) = fst state ! target (es0 ! e))
      \<and> (\<forall>u < n. \<exists>steps. spanningTreeWalk (snd state) u steps (fst state ! u))
      \<and> (\<forall>u steps. \<not> spanningTreeCycle (snd state) u steps)
      \<and> acyclic (spanningTreeRel (snd state))
      \<and> card {e. e < length es0 \<and> isSpanningTreeEdge (snd state ! e)} + card (set (fst state)) = n
      \<and> (\<forall>e \<in> set processed. e < length es0 \<longrightarrow>
            fst state ! source (es0 ! e) = fst state ! target (es0 ! e)))"


subsection \<open>The best path in the optimal spanning tree\<close>

text \<open>
  The filtered graph \<open>spanningTree\<close> has the edges with \<open>isSpanningTreeEdge\<close> only. These are
  the targets of its edges out of a vertex and the sources of its edges into a vertex, in
  the order of creation of the edges.
\<close>

definition out_targets :: "LocalMarkerGraph2 \<Rightarrow> vertex_descriptor \<Rightarrow> vertex_descriptor list" where
  "out_targets graph u =
     map target (filter (\<lambda>edge. source edge = u \<and> isSpanningTreeEdge edge) (edges graph))"

definition in_sources :: "LocalMarkerGraph2 \<Rightarrow> vertex_descriptor \<Rightarrow> vertex_descriptor list" where
  "in_sources graph v =
     map source (filter (\<lambda>edge. target edge = v \<and> isSpanningTreeEdge edge) (edges graph))"

text \<open>
  \<open>boost::topological_sort\<close> belongs to the Boost library: a depth first search over all
  vertices that writes a vertex when it is finished and throws \<open>not_a_dag\<close> at a back edge.
  The search keeps a stack of vertices with the out edges still to examine. The two
  quantities below decrease along it.
\<close>

datatype color = White | Gray | Black

definition whiteCount ::
  "LocalMarkerGraph2 \<Rightarrow> (vertex_descriptor \<times> vertex_descriptor list) list
     \<Rightarrow> (vertex_descriptor \<Rightarrow> color) \<Rightarrow> nat" where
  "whiteCount graph stack colorMap =
     card {x \<in> target ` set (edges graph) \<union> \<Union> (set ` snd ` set stack). colorMap x = White}"

definition stackSize :: "(vertex_descriptor \<times> vertex_descriptor list) list \<Rightarrow> nat" where
  "stackSize stack = sum_list (map (\<lambda>p. Suc (length (snd p))) stack)"

lemma whiteCount_le:
  assumes "\<Union> (set ` snd ` set stack') \<subseteq> target ` set (edges graph) \<union> \<Union> (set ` snd ` set stack)"
    and "\<And>x. colorMap' x = White \<Longrightarrow> colorMap x = White"
  shows "whiteCount graph stack' colorMap' \<le> whiteCount graph stack colorMap"
  unfolding whiteCount_def
  by (rule card_mono) (use assms in auto)

lemma whiteCount_less:
  assumes "\<Union> (set ` snd ` set stack') \<subseteq> target ` set (edges graph) \<union> \<Union> (set ` snd ` set stack)"
    and "\<And>x. colorMap' x = White \<Longrightarrow> colorMap x = White"
    and "v \<in> \<Union> (set ` snd ` set stack)" "colorMap v = White" "colorMap' v \<noteq> White"
  shows "whiteCount graph stack' colorMap' < whiteCount graph stack colorMap"
  unfolding whiteCount_def
  by (rule psubset_card_mono) (use assms in auto)

lemma out_targets_subset: "set (out_targets graph u) \<subseteq> target ` set (edges graph)"
  by (auto simp: out_targets_def)

function depth_first_visit_impl ::
  "LocalMarkerGraph2 \<Rightarrow> (vertex_descriptor \<times> vertex_descriptor list) list
     \<Rightarrow> (vertex_descriptor \<Rightarrow> color) \<Rightarrow> vertex_descriptor list
     \<Rightarrow> error + (vertex_descriptor \<Rightarrow> color) \<times> vertex_descriptor list" where
  "depth_first_visit_impl graph [] colorMap out = Inr (colorMap, out)"
| "depth_first_visit_impl graph ((u, []) # stack) colorMap out =
     depth_first_visit_impl graph stack (colorMap(u := Black)) (out @ [u])"
| "depth_first_visit_impl graph ((u, v # ei) # stack) colorMap out =
     (case colorMap v of
        White \<Rightarrow>
          depth_first_visit_impl graph ((v, out_targets graph v) # (u, ei) # stack)
            (colorMap(v := Gray)) out
      | Gray \<Rightarrow> Inl NotADag
      | Black \<Rightarrow> depth_first_visit_impl graph ((u, ei) # stack) colorMap out)"
  by pat_completeness auto
termination
proof (relation "inv_image (less_than <*lex*> less_than)
    (\<lambda>(graph, stack, colorMap, out). (whiteCount graph stack colorMap, stackSize stack))")
  show "wf (inv_image (less_than <*lex*> less_than)
    (\<lambda>(graph, stack, colorMap, out). (whiteCount graph stack colorMap, stackSize stack)))"
    by (intro wf_inv_image wf_lex_prod wf_less_than)
next
  fix graph :: LocalMarkerGraph2 and u :: vertex_descriptor
    and stack :: "(vertex_descriptor \<times> vertex_descriptor list) list"
    and colorMap :: "vertex_descriptor \<Rightarrow> color" and out :: "vertex_descriptor list"
  have "whiteCount graph stack (colorMap(u := Black)) \<le> whiteCount graph ((u, []) # stack) colorMap"
    by (rule whiteCount_le) (auto split: if_splits)
  then show "((graph, stack, colorMap(u := Black), out @ [u]), (graph, (u, []) # stack, colorMap, out))
    \<in> inv_image (less_than <*lex*> less_than)
    (\<lambda>(graph, stack, colorMap, out). (whiteCount graph stack colorMap, stackSize stack))"
    by (auto simp: stackSize_def)
next
  fix graph :: LocalMarkerGraph2 and u v :: vertex_descriptor
    and ei :: "vertex_descriptor list"
    and stack :: "(vertex_descriptor \<times> vertex_descriptor list) list"
    and colorMap :: "vertex_descriptor \<Rightarrow> color" and out :: "vertex_descriptor list"
  assume "colorMap v = White"
  then have "whiteCount graph ((v, out_targets graph v) # (u, ei) # stack) (colorMap(v := Gray))
      < whiteCount graph ((u, v # ei) # stack) colorMap"
    using out_targets_subset [of graph v]
    by (intro whiteCount_less [where v = v]) (auto split: if_splits)
  then show "((graph, (v, out_targets graph v) # (u, ei) # stack, colorMap(v := Gray), out),
      (graph, (u, v # ei) # stack, colorMap, out))
    \<in> inv_image (less_than <*lex*> less_than)
    (\<lambda>(graph, stack, colorMap, out). (whiteCount graph stack colorMap, stackSize stack))"
    by simp
next
  fix graph :: LocalMarkerGraph2 and u v :: vertex_descriptor
    and ei :: "vertex_descriptor list"
    and stack :: "(vertex_descriptor \<times> vertex_descriptor list) list"
    and colorMap :: "vertex_descriptor \<Rightarrow> color" and out :: "vertex_descriptor list"
  have "whiteCount graph ((u, ei) # stack) colorMap \<le> whiteCount graph ((u, v # ei) # stack) colorMap"
    by (rule whiteCount_le) auto
  then show "((graph, (u, ei) # stack, colorMap, out), (graph, (u, v # ei) # stack, colorMap, out))
    \<in> inv_image (less_than <*lex*> less_than)
    (\<lambda>(graph, stack, colorMap, out). (whiteCount graph stack colorMap, stackSize stack))"
    by (auto simp: stackSize_def)
qed

fun depth_first_search ::
  "LocalMarkerGraph2 \<Rightarrow> vertex_descriptor list \<Rightarrow> (vertex_descriptor \<Rightarrow> color)
     \<Rightarrow> vertex_descriptor list
     \<Rightarrow> error + (vertex_descriptor \<Rightarrow> color) \<times> vertex_descriptor list" where
  "depth_first_search graph [] colorMap out = Inr (colorMap, out)"
| "depth_first_search graph (u # us) colorMap out =
     (if colorMap u = White
      then
        (case depth_first_visit_impl graph [(u, out_targets graph u)] (colorMap(u := Gray)) out of
           Inl err \<Rightarrow> Inl err
         | Inr (colorMap', out') \<Rightarrow> depth_first_search graph us colorMap' out')
      else depth_first_search graph us colorMap out)"

definition topological_sort :: "LocalMarkerGraph2 \<Rightarrow> error + vertex_descriptor list" where
  "topological_sort graph =
     (case depth_first_search graph [0..<length (vertices graph)] (\<lambda>v. White) [] of
        Inl err \<Rightarrow> Inl err
      | Inr (colorMap, out) \<Rightarrow> Inr out)"

text \<open>
  The table of pairs (predecessor, distance). The distance is a 32-bit counter in the
  source and counts edges of a path without repeated vertices, so it stays below the
  number of vertices; it is a natural number here. \<open>vertexTable.insert\<close> leaves an
  existing entry as it is.
\<close>

type_synonym VertexTable = "vertex_descriptor \<rightharpoonup> (vertex_descriptor option \<times> nat)"

fun inEdgeLoop ::
  "VertexTable \<Rightarrow> vertex_descriptor option \<times> nat \<Rightarrow> vertex_descriptor list
     \<Rightarrow> error + vertex_descriptor option \<times> nat" where
  "inEdgeLoop vertexTable p [] = Inr p"
| "inEdgeLoop vertexTable p (v1 # sources) =
     (case vertexTable v1 of
        None \<Rightarrow> Inl AssertionFailed
      | Some q \<Rightarrow>
          if snd q + 1 > snd p then inEdgeLoop vertexTable (Some v1, snd q + 1) sources
          else inEdgeLoop vertexTable p sources)"

fun vertexLoop ::
  "LocalMarkerGraph2 \<Rightarrow> VertexTable \<Rightarrow> vertex_descriptor list \<Rightarrow> error + VertexTable" where
  "vertexLoop graph vertexTable [] = Inr vertexTable"
| "vertexLoop graph vertexTable (v0 # vs) =
     (case inEdgeLoop vertexTable (None, 0) (in_sources graph v0) of
        Inl err \<Rightarrow> Inl err
      | Inr p \<Rightarrow>
          vertexLoop graph
            (if vertexTable v0 = None then vertexTable(v0 \<mapsto> p) else vertexTable) vs)"

fun lastPathVertexLoop ::
  "VertexTable \<Rightarrow> vertex_descriptor option \<times> nat \<Rightarrow> vertex_descriptor list
     \<Rightarrow> error + vertex_descriptor option \<times> nat" where
  "lastPathVertexLoop vertexTable p [] = Inr p"
| "lastPathVertexLoop vertexTable p (v # vs) =
     (case vertexTable v of
        None \<Rightarrow> Inl AssertionFailed
      | Some q \<Rightarrow>
          if snd q > snd p then lastPathVertexLoop vertexTable (Some v, snd q) vs
          else lastPathVertexLoop vertexTable p vs)"

text \<open>
  \<open>boost::edge(u, v, graph)\<close> on the whole graph: the first edge from \<open>u\<close> to \<open>v\<close> among the
  out edges of \<open>u\<close>, if there is one. Which edge Boost returns when several join \<open>u\<close> to
  \<open>v\<close> depends on the container of the out edges, which \<open>LocalMarkerGraph2.hpp\<close> fixes; the
  properties below rely only on the result being an edge from \<open>u\<close> to \<open>v\<close>, and on there
  being a result when such an edge exists.
\<close>

definition boost_edge ::
  "vertex_descriptor \<Rightarrow> vertex_descriptor \<Rightarrow> LocalMarkerGraph2 \<Rightarrow> edge_descriptor option" where
  "boost_edge u v graph =
     List.find (\<lambda>e. source (edges graph ! e) = u \<and> target (edges graph ! e) = v)
       [0..<length (edges graph)]"

text \<open>
  The loop that follows the predecessors from the last vertex of the path. Nothing in the
  loop itself bounds the number of its passes. \<open>vertexTable[v1]\<close> of a missing vertex is
  a pair with the null vertex.
\<close>

partial_function (option) pathLoop ::
  "LocalMarkerGraph2 \<Rightarrow> VertexTable \<Rightarrow> vertex_descriptor option \<Rightarrow> edge_descriptor list
     \<Rightarrow> (error + edge_descriptor list) option" where
  "pathLoop graph vertexTable v longestPath =
     (case v of
        None \<Rightarrow> Some (Inr longestPath)
      | Some v1 \<Rightarrow>
          (case vertexTable v1 of
             None \<Rightarrow> Some (Inr longestPath)
           | Some q \<Rightarrow>
               (case fst q of
                  None \<Rightarrow> Some (Inr longestPath)
                | Some v0 \<Rightarrow>
                    (case boost_edge v0 v1 graph of
                       None \<Rightarrow> Some (Inl AssertionFailed)
                     | Some e \<Rightarrow> pathLoop graph vertexTable (Some v0) (longestPath @ [e])))))"

declare pathLoop.simps [code]

text \<open>
  \<open>computeOptimalSpanningTreeBestPath\<close> up to the reversal of \<open>longestPath\<close>, and then
  with the loop that marks the edges.
\<close>

definition longestPath :: "LocalMarkerGraph2 \<Rightarrow> (error + edge_descriptor list) option" where
  "longestPath graph =
     (case topological_sort graph of
        Inl err \<Rightarrow> Some (Inl err)
      | Inr sortedVertices \<Rightarrow>
          (case vertexLoop graph Map.empty (rev sortedVertices) of
             Inl err \<Rightarrow> Some (Inl err)
           | Inr vertexTable \<Rightarrow>
               (case lastPathVertexLoop vertexTable (None, 0) [0..<length (vertices graph)] of
                  Inl err \<Rightarrow> Some (Inl err)
                | Inr p \<Rightarrow>
                    (case pathLoop graph vertexTable (fst p) [] of
                       None \<Rightarrow> None
                     | Some (Inl err) \<Rightarrow> Some (Inl err)
                     | Some (Inr path) \<Rightarrow> Some (Inr (rev path))))))"

definition markBestPathEdge :: "LocalMarkerGraph2Edge list \<Rightarrow> edge_descriptor \<Rightarrow> LocalMarkerGraph2Edge list" where
  "markBestPathEdge es e = es[e := (es ! e)\<lparr>isSpanningTreeBestPathEdge := True\<rparr>]"

definition computeOptimalSpanningTreeBestPath ::
  "LocalMarkerGraph2 \<Rightarrow> (error + LocalMarkerGraph2) option" where
  "computeOptimalSpanningTreeBestPath graph =
     (case longestPath graph of
        None \<Rightarrow> None
      | Some (Inl err) \<Rightarrow> Some (Inl err)
      | Some (Inr path) \<Rightarrow> Some (Inr (graph\<lparr>edges := foldl markBestPathEdge (edges graph) path\<rparr>)))"

subsection \<open>Specification notions for the best path\<close>








section \<open>Example inputs\<close>

text \<open>
  An insertion sort. It meets the contract of \<open>std::sort\<close> for the two comparisons of this
  program, and the examples are run with it.
\<close>

fun insertBy :: "('a \<Rightarrow> 'a \<Rightarrow> bool) \<Rightarrow> 'a \<Rightarrow> 'a list \<Rightarrow> 'a list" where
  "insertBy cmp x [] = [x]"
| "insertBy cmp x (y # ys) =
     (if cmp y x then y # insertBy cmp x ys else x # y # ys)"

definition insertionSort :: "('a \<Rightarrow> 'a \<Rightarrow> bool) \<Rightarrow> 'a list \<Rightarrow> 'a list" where
  "insertionSort cmp xs = foldr (insertBy cmp) xs []"

text \<open>
  One read of six bases with markers of length 2 at positions 0, 2 and 4, and the markers
  of its two orientations. The markers 1 and 4 have no vertex of the global marker graph.
\<close>

definition exampleTables :: Tables where
  "exampleTables =
     \<lparr>k = 2,
      reads = [[BaseG, BaseG, BaseA, BaseC, BaseT, BaseT]],
      markers = [[\<lparr>kmerId = 10, position = 0\<rparr>, \<lparr>kmerId = 11, position = 2\<rparr>,
                  \<lparr>kmerId = 15, position = 4\<rparr>],
                 [\<lparr>kmerId = 15, position = 0\<rparr>, \<lparr>kmerId = 11, position = 2\<rparr>,
                  \<lparr>kmerId = 10, position = 4\<rparr>]],
      globalMarkerGraphVertex = [0, 5, 1, 1, 5, 0],
      invalid = 5\<rparr>"

definition emptyGraph :: LocalMarkerGraph2 where
  "emptyGraph = \<lparr>vertices = [], edges = [], vertexMap = Map.empty\<rparr>"

definition oneVertexGraph :: LocalMarkerGraph2 where
  "oneVertexGraph =
     \<lparr>vertices = [\<lparr>vertexId = 7, distance = 0, markerInfos =
         [\<lparr>markerId = 1, orientedReadId = 0, ordinal = 1\<rparr>,
          \<lparr>markerId = 4, orientedReadId = 1, ordinal = 1\<rparr>]\<rparr>],
      edges = [],
      vertexMap = [7 \<mapsto> 0]\<rparr>"

text \<open>
  Graphs whose edges have a given number of observations. In \<open>staleGraph\<close> the flags are
  left from earlier computations; in \<open>diamondGraph\<close> the edges 0, 1 and 3 join all four
  vertices.
\<close>

definition plainEdge :: "vertex_descriptor \<Rightarrow> vertex_descriptor \<Rightarrow> nat \<Rightarrow> LocalMarkerGraph2Edge" where
  "plainEdge u v n =
     \<lparr>source = u, target = v,
      infos = [(\<lparr>overlappingBaseCount = 0, sequence = []\<rparr>,
                replicate n \<lparr>info_orientedReadId = 0, ordinals0 = 0, ordinals1 = 1\<rparr>)],
      isSpanningTreeEdge = False, isSpanningTreeBestPathEdge = False\<rparr>"

definition plainVertex :: "GlobalMarkerGraphVertexId \<Rightarrow> LocalMarkerGraph2Vertex" where
  "plainVertex vid = \<lparr>vertexId = vid, distance = 0, markerInfos = []\<rparr>"

definition staleGraph :: LocalMarkerGraph2 where
  "staleGraph =
     \<lparr>vertices = [plainVertex 0, plainVertex 1, plainVertex 2],
      edges = [(plainEdge 0 1 1)\<lparr>isSpanningTreeEdge := True\<rparr>,
               (plainEdge 0 2 1)\<lparr>isSpanningTreeBestPathEdge := True\<rparr>,
               (plainEdge 1 2 1)\<lparr>isSpanningTreeEdge := True\<rparr>],
      vertexMap = [0 \<mapsto> 0, 1 \<mapsto> 1, 2 \<mapsto> 2]\<rparr>"

definition diamondGraph :: LocalMarkerGraph2 where
  "diamondGraph =
     \<lparr>vertices = [plainVertex 0, plainVertex 1, plainVertex 2, plainVertex 3],
      edges = [plainEdge 0 1 3, plainEdge 1 2 2, plainEdge 0 2 1, plainEdge 3 2 1],
      vertexMap = [0 \<mapsto> 0, 1 \<mapsto> 1, 2 \<mapsto> 2, 3 \<mapsto> 3]\<rparr>"

text \<open>
  The two vertices of the markers 0 and 5, and 2 and 3, as \<open>addVertex\<close> builds them from
  \<open>exampleTables\<close>, with an edge between them.
\<close>

definition exampleGraph :: LocalMarkerGraph2 where
  "exampleGraph =
     \<lparr>vertices =
        [\<lparr>vertexId = 0, distance = 0, markerInfos =
            [\<lparr>markerId = 0, orientedReadId = 0, ordinal = 0\<rparr>,
             \<lparr>markerId = 5, orientedReadId = 1, ordinal = 2\<rparr>]\<rparr>,
         \<lparr>vertexId = 1, distance = 1, markerInfos =
            [\<lparr>markerId = 2, orientedReadId = 0, ordinal = 2\<rparr>,
             \<lparr>markerId = 3, orientedReadId = 1, ordinal = 0\<rparr>]\<rparr>],
      edges = [\<lparr>source = 0, target = 1, infos = [],
                isSpanningTreeEdge = False, isSpanningTreeBestPathEdge = False\<rparr>],
      vertexMap = [0 \<mapsto> 0, 1 \<mapsto> 1]\<rparr>"


text \<open>
  Two reads, GGACTT and GGTT, with markers of length 2 at the positions 0, 2, 4 and 0, 2,
  and the markers of their four orientations. The vertices 0 and 1 hold the first and the
  last marker of the two reads on strand 0, the vertices 2 and 3 those on strand 1; the
  middle marker of the first read has no vertex. On each edge the first read has two bases
  between its markers, and the markers of the second read abut.
\<close>

definition strandsTables :: Tables where
  "strandsTables =
     \<lparr>k = 2,
      reads = [[BaseG, BaseG, BaseA, BaseC, BaseT, BaseT], [BaseG, BaseG, BaseT, BaseT]],
      markers = [[\<lparr>kmerId = 10, position = 0\<rparr>, \<lparr>kmerId = 1, position = 2\<rparr>,
                  \<lparr>kmerId = 15, position = 4\<rparr>],
                 [\<lparr>kmerId = 0, position = 0\<rparr>, \<lparr>kmerId = 11, position = 2\<rparr>,
                  \<lparr>kmerId = 5, position = 4\<rparr>],
                 [\<lparr>kmerId = 10, position = 0\<rparr>, \<lparr>kmerId = 15, position = 2\<rparr>],
                 [\<lparr>kmerId = 0, position = 0\<rparr>, \<lparr>kmerId = 5, position = 2\<rparr>]],
      globalMarkerGraphVertex = [0, 99, 1, 2, 99, 3, 0, 1, 2, 3],
      invalid = 99\<rparr>"

definition strandsGraph :: LocalMarkerGraph2 where
  "strandsGraph =
     \<lparr>vertices =
        [\<lparr>vertexId = 0, distance = 0, markerInfos =
            [\<lparr>markerId = 0, orientedReadId = 0, ordinal = 0\<rparr>,
             \<lparr>markerId = 6, orientedReadId = 2, ordinal = 0\<rparr>]\<rparr>,
         \<lparr>vertexId = 1, distance = 1, markerInfos =
            [\<lparr>markerId = 2, orientedReadId = 0, ordinal = 2\<rparr>,
             \<lparr>markerId = 7, orientedReadId = 2, ordinal = 1\<rparr>]\<rparr>,
         \<lparr>vertexId = 2, distance = 1, markerInfos =
            [\<lparr>markerId = 3, orientedReadId = 1, ordinal = 0\<rparr>,
             \<lparr>markerId = 8, orientedReadId = 3, ordinal = 0\<rparr>]\<rparr>,
         \<lparr>vertexId = 3, distance = 0, markerInfos =
            [\<lparr>markerId = 5, orientedReadId = 1, ordinal = 2\<rparr>,
             \<lparr>markerId = 9, orientedReadId = 3, ordinal = 1\<rparr>]\<rparr>],
      edges = [\<lparr>source = 0, target = 1, infos = [],
                isSpanningTreeEdge = False, isSpanningTreeBestPathEdge = False\<rparr>,
               \<lparr>source = 2, target = 3, infos = [],
                isSpanningTreeEdge = False, isSpanningTreeBestPathEdge = False\<rparr>],
      vertexMap = [0 \<mapsto> 0, 1 \<mapsto> 1, 2 \<mapsto> 2, 3 \<mapsto> 3]\<rparr>"

section \<open>Properties\<close>

subsection \<open>The sequence between two markers\<close>

lemma at_Some: "at xs i = Some x \<longleftrightarrow> i < length xs \<and> xs ! i = x"
  by (auto simp: at_def)

lemma word_less_Suc_unat:
  fixes p q :: "32 word"
  assumes "p \<le> q" "p \<noteq> q"
  shows "p + 1 \<le> q" "unat (p + 1) = Suc (unat p)"
proof -
  from assms have lt: "p < q" by simp
  then show "p + 1 \<le> q" by (simp add: inc_le)
  from lt show "unat (p + 1) = Suc (unat p)"
    by unat_arith
qed

lemma basesBetween_eq:
  "p \<le> pEnd \<Longrightarrow> basesBetween read readLength strand p pEnd = Some bases \<Longrightarrow>
     bases = map (\<lambda>n. if strand = 0 then read ! n
                        else complement (read ! unat (readLength - 1 - word_of_nat n)))
               [unat p..<unat pEnd]"
proof (induction read readLength strand p pEnd arbitrary: bases rule: basesBetween.induct)
  case (1 read readLength strand p pEnd)
  show ?case
  proof (cases "p = pEnd")
    case True
    with "1.prems" show ?thesis by (simp add: basesBetween.simps)
  next
    case False
    from "1.prems"(1) False have le: "p + 1 \<le> pEnd" and suc: "unat (p + 1) = Suc (unat p)"
      by (rule word_less_Suc_unat)+
    from "1.prems"(1) False have lt: "unat p < unat pEnd"
      by unat_arith
    from "1.prems"(2) False obtain base rest where
      b: "(if strand = 0 then get read p
           else map_option complement (get read (readLength - 1 - p))) = Some base"
      and r: "basesBetween read readLength strand (p + 1) pEnd = Some rest"
      and bs: "bases = base # rest"
      by (subst (asm) basesBetween.simps) (auto split: option.splits)
    from "1.IH" [OF False b le r] suc
    have rest: "rest = map (\<lambda>n. if strand = 0 then read ! n
                        else complement (read ! unat (readLength - 1 - word_of_nat n)))
               [Suc (unat p)..<unat pEnd]" by simp
    from b have base: "base = (if strand = 0 then read ! unat p
                        else complement (read ! unat (readLength - 1 - p)))"
      by (auto simp: get_def at_Some split: if_splits)
    from lt have "[unat p..<unat pEnd] = unat p # [Suc (unat p)..<unat pEnd]"
      by (simp add: upt_conv_Cons)
    with bs rest base show ?thesis by simp
  qed
qed

lemma basesBetween_nonempty:
  "p \<noteq> pEnd \<Longrightarrow> basesBetween read readLength strand p pEnd = Some bases \<Longrightarrow> bases \<noteq> []"
  by (subst (asm) basesBetween.simps) (auto split: option.splits)


lemma basesBetween_in_range:
  "p \<le> pEnd \<Longrightarrow> basesBetween read readLength strand p pEnd = Some bases \<Longrightarrow>
     n \<in> set [unat p..<unat pEnd] \<Longrightarrow>
     (if strand = 0 then n < length read
      else unat (readLength - 1 - word_of_nat n) < length read)"
proof (induction read readLength strand p pEnd arbitrary: bases rule: basesBetween.induct)
  case (1 read readLength strand p pEnd)
  show ?case
  proof (cases "p = pEnd")
    case True
    with "1.prems" show ?thesis by simp
  next
    case False
    from "1.prems"(1) False have le: "p + 1 \<le> pEnd" and suc: "unat (p + 1) = Suc (unat p)"
      by (rule word_less_Suc_unat)+
    from "1.prems"(2) False obtain base rest where
      b: "(if strand = 0 then get read p
           else map_option complement (get read (readLength - 1 - p))) = Some base"
      and r: "basesBetween read readLength strand (p + 1) pEnd = Some rest"
      by (subst (asm) basesBetween.simps) (auto split: option.splits)
    show ?thesis
    proof (cases "n = unat p")
      case True
      with b show ?thesis
        by (auto simp: get_def at_Some split: if_splits)
    next
      case False
      with "1.prems"(3) suc have "n \<in> set [unat (p + 1)..<unat pEnd]" by auto
      from "1.IH" [OF \<open>p \<noteq> pEnd\<close> b le r this] show ?thesis .
    qed
  qed
qed

lemma reverse_index:
  fixes pw :: "32 word"
  assumes "len < 2 ^ 32" and "unat (word_of_nat len - 1 - pw) < len"
  shows "unat pw < len \<and> unat (word_of_nat len - 1 - pw) = len - 1 - unat pw"
proof -
  have l: "unat (word_of_nat len :: 32 word) = len"
    using assms(1) by (simp add: unat_of_nat)
  from assms(2) have "0 < len" by simp
  then have l1: "unat (word_of_nat len - 1 :: 32 word) = len - 1"
    using l by (metis unat_minus_one unat_eq_zero not_less_zero less_numeral_extra(3) gr_implies_not0)
  show ?thesis
  proof (cases "pw \<le> word_of_nat len - 1")
    case True
    then have "unat (word_of_nat len - 1 - pw) = len - 1 - unat pw"
      using l1 by (simp add: unat_sub)
    moreover from True have "unat pw \<le> len - 1" using l1 by (simp add: word_le_nat_alt)
    ultimately show ?thesis using \<open>0 < len\<close> by simp
  next
    case False
    then have "unat (word_of_nat len - 1 - pw) = 2 ^ 32 + (len - 1) - unat pw"
      using l1 by (simp add: unat_sub_if_size word_size word_le_nat_alt)
    moreover have "unat pw < 2 ^ 32" using unsigned_less [of pw] by simp
    ultimately have "len \<le> unat (word_of_nat len - 1 - pw)" using \<open>0 < len\<close> by simp
    with assms(2) show ?thesis by simp
  qed
qed

text \<open>
  The block "Fill in the sequence information" for markers that neither overlap nor abut:
  no overlap count, and the run of bases at the positions from \<open>marker0.position + k\<close> up
  to, and excluding, \<open>marker1.position\<close>, each the base of the stored read at that
  position on strand 0 and the complement of the base at \<open>readLength - 1 - position\<close> on
  strand 1. For a read shorter than \<open>2 ^ 32\<close> this is that range of the read or of its
  reverse complement.
\<close>

lemma fillSequence_insertion:
  "fillSequence t orid marker0 marker1 = Some s \<Longrightarrow>
   position marker0 + k t < position marker1 \<Longrightarrow>
   (\<exists>read. at (reads t) (getReadId orid) = Some read
      \<and> overlappingBaseCount s = 0
      \<and> sequence s =
          map (\<lambda>p. if getStrand orid = 0 then read ! p
                    else complement
                      (read ! unat (word_of_nat (length read) - 1 - word_of_nat p :: 32 word)))
            [unat (position marker0 + k t)..<unat (position marker1)]
      \<and> (length read < 2 ^ 32 \<longrightarrow>
           sequence s =
             take (unat (position marker1) - unat (position marker0 + k t))
               (drop (unat (position marker0 + k t))
                  (if getStrand orid = 0 then read else map complement (rev read)))))"
proof -
  assume fs: "fillSequence t orid marker0 marker1 = Some s"
    and lt: "position marker0 + k t < position marker1"
  let ?p = "position marker0 + k t" and ?q = "position marker1"
  from lt have nle: "\<not> ?q \<le> ?p" and le: "?p \<le> ?q" by simp_all
  from fs nle obtain read bases where
    rd: "at (reads t) (getReadId orid) = Some read"
    and bb: "basesBetween read (word_of_nat (length read)) (getStrand orid) ?p ?q = Some bases"
    and s: "s = \<lparr>overlappingBaseCount = 0, sequence = bases\<rparr>"
    by (auto simp: fillSequence_def split: option.splits)
  let ?f = "\<lambda>p. if getStrand orid = 0 then read ! p
                    else complement
                      (read ! unat (word_of_nat (length read) - 1 - word_of_nat p :: 32 word))"
  have eq: "bases = map ?f [unat ?p..<unat ?q]"
    by (rule basesBetween_eq [OF le bb])
  have second: "bases = take (unat ?q - unat ?p)
               (drop (unat ?p) (if getStrand orid = 0 then read else map complement (rev read)))"
    if len: "length read < 2 ^ 32"
  proof -
    let ?oriented = "if getStrand orid = 0 then read else map complement (rev read)"
    have in_range: "n < length read \<and> ?f n = ?oriented ! n" if n: "n \<in> set [unat ?p..<unat ?q]" for n
    proof (cases "getStrand orid = 0")
      case True
      with basesBetween_in_range [OF le bb n] show ?thesis by simp
    next
      case False
      with basesBetween_in_range [OF le bb n]
      have "unat (word_of_nat (length read) - 1 - word_of_nat n :: 32 word) < length read" by simp
      from reverse_index [OF len this]
      have a: "unat (word_of_nat n :: 32 word) < length read"
        and b: "unat (word_of_nat (length read) - 1 - word_of_nat n :: 32 word)
                  = length read - 1 - unat (word_of_nat n :: 32 word)" by simp_all
      from n have "n < unat ?q" by simp
      also have "\<dots> < 2 ^ 32" using unsigned_less [of ?q] by simp
      finally have "unat (word_of_nat n :: 32 word) = n" by (simp add: unat_of_nat)
      with a b False show ?thesis by (simp add: rev_nth)
    qed
    have "unat ?q \<le> length read"
    proof (cases "unat ?p < unat ?q")
      case True
      then have "unat ?q - 1 \<in> set [unat ?p..<unat ?q]" by auto
      from in_range [OF this, THEN conjunct1] True show ?thesis by arith
    next
      case False
      with lt show ?thesis by (simp add: word_less_nat_alt)
    qed
    then have "take (unat ?q - unat ?p) (drop (unat ?p) ?oriented)
        = map (\<lambda>n. ?oriented ! n) [unat ?p..<unat ?q]"
      by (intro nth_equalityI) (auto simp: nth_append)
    also have "\<dots> = map ?f [unat ?p..<unat ?q]"
      using in_range by (intro map_cong) auto
    finally show ?thesis using eq by simp
  qed
  from rd s eq second show ?thesis by auto
qed

text \<open>
  The same block for markers that overlap or abut: no bases, and the difference
  \<open>marker0.position + k - marker1.position\<close> reduced modulo 256 by the conversion to 8 bits.
\<close>

lemma fillSequence_overlap:
  "position marker1 \<le> position marker0 + k t \<Longrightarrow>
   (\<exists>s. fillSequence t orid marker0 marker1 = Some s
      \<and> sequence s = []
      \<and> unat (overlappingBaseCount s)
          = unat (position marker0 + k t - position marker1) mod 256
      \<and> (unat (position marker0 + k t - position marker1) \<le> 255 \<longrightarrow>
           unat (overlappingBaseCount s) = unat (position marker0 + k t - position marker1)))"
  by (simp add: fillSequence_def unsigned_ucast_eq take_bit_eq_mod)

text \<open>
  The two representations exclude each other, and the value for markers that abut differs,
  also as a key of the sequence table, from every value with bases.
\<close>

lemma fillSequence_representations:
  "fillSequence t orid marker0 marker1 = Some s \<Longrightarrow>
     ((position marker1 \<le> position marker0 + k t \<and> sequence s = [])
        \<or> (position marker0 + k t < position marker1
             \<and> sequence s \<noteq> [] \<and> overlappingBaseCount s = 0))
     \<and> (position marker1 = position marker0 + k t \<longrightarrow>
           s = \<lparr>overlappingBaseCount = 0, sequence = []\<rparr>
           \<and> (\<forall>t' orid' marker0' marker1' s'.
                 fillSequence t' orid' marker0' marker1' = Some s'
                 \<and> position marker0' + k t' < position marker1'
                 \<longrightarrow> s \<noteq> s' \<and> Sequence_key s < Sequence_key s'))"
proof -
  assume fs: "fillSequence t orid marker0 marker1 = Some s"
  have insertion: "sequence s' \<noteq> [] \<and> overlappingBaseCount s' = 0"
    if "fillSequence t' orid' marker0' marker1' = Some s'"
      and "position marker0' + k t' < position marker1'"
    for t' orid' marker0' marker1' s'
  proof -
    from that obtain read bases where
      bb: "basesBetween read (word_of_nat (length read)) (getStrand orid')
         (position marker0' + k t') (position marker1') = Some bases"
      and s': "s' = \<lparr>overlappingBaseCount = 0, sequence = bases\<rparr>"
      by (auto simp: fillSequence_def split: option.splits if_splits)
    from that(2) have "position marker0' + k t' \<noteq> position marker1'" by simp
    from basesBetween_nonempty [OF this bb] s' show ?thesis by simp
  qed
  have first: "(position marker1 \<le> position marker0 + k t \<and> sequence s = [])
        \<or> (position marker0 + k t < position marker1
             \<and> sequence s \<noteq> [] \<and> overlappingBaseCount s = 0)"
  proof (cases "position marker1 \<le> position marker0 + k t")
    case True
    with fs show ?thesis by (auto simp: fillSequence_def)
  next
    case False
    then have "position marker0 + k t < position marker1" by simp
    with insertion [OF fs this] show ?thesis by simp
  qed
  have second: "s = \<lparr>overlappingBaseCount = 0, sequence = []\<rparr>
           \<and> (\<forall>t' orid' marker0' marker1' s'.
                 fillSequence t' orid' marker0' marker1' = Some s'
                 \<and> position marker0' + k t' < position marker1'
                 \<longrightarrow> s \<noteq> s' \<and> Sequence_key s < Sequence_key s')"
    if abut: "position marker1 = position marker0 + k t"
  proof -
    from fs abut have s: "s = \<lparr>overlappingBaseCount = 0, sequence = []\<rparr>"
      by (simp add: fillSequence_def)
    have "s \<noteq> s' \<and> Sequence_key s < Sequence_key s'"
      if "fillSequence t' orid' marker0' marker1' = Some s'"
        and "position marker0' + k t' < position marker1'"
      for t' orid' marker0' marker1' s'
    proof -
      from insertion [OF that] obtain b bs where "sequence s' = b # bs"
        and "overlappingBaseCount s' = 0"
        by (cases "sequence s'") auto
      with s show ?thesis by (auto simp: Sequence_key_def)
    qed
    with s show ?thesis by blast
  qed
  from first second show ?thesis by blast
qed

subsection \<open>Sequence aggregation\<close>

lemma insertBy_set [simp]: "set (insertBy cmp x ys) = insert x (set ys)"
  by (induction ys) auto

lemma insertBy_length [simp]: "length (insertBy cmp x ys) = Suc (length ys)"
  by (induction ys) auto

lemma insertBy_mset [simp]: "mset (insertBy cmp x ys) = add_mset x (mset ys)"
  by (induction ys) auto

lemma insertionSort_mset [simp]: "mset (insertionSort cmp xs) = mset xs"
  by (induction xs) (simp_all add: insertionSort_def)

lemma insertBy_sorted:
  fixes f :: "'a \<Rightarrow> nat"
  assumes cmp: "\<And>x y. cmp x y \<longleftrightarrow> f y < f x"
  shows "sorted_wrt (\<lambda>x y. \<not> cmp y x) ys \<Longrightarrow> sorted_wrt (\<lambda>x y. \<not> cmp y x) (insertBy cmp x ys)"
proof (induction ys)
  case Nil
  show ?case by simp
next
  case (Cons y ys)
  show ?case
  proof (cases "cmp y x")
    case True
    with Cons show ?thesis by (auto simp: cmp)
  next
    case False
    with Cons.prems show ?thesis by (auto simp: cmp)
  qed
qed

lemma insertionSort_sorted:
  fixes f :: "'a \<Rightarrow> nat"
  assumes "\<And>x y. cmp x y \<longleftrightarrow> f y < f x"
  shows "sorted_wrt (\<lambda>x y. \<not> cmp y x) (insertionSort cmp xs)"
proof (induction xs)
  case Nil
  show ?case by (simp add: insertionSort_def)
next
  case (Cons x xs)
  from insertBy_sorted [of cmp f, OF assms Cons]
  show ?case by (simp add: insertionSort_def)
qed

lemma insertionSort_contract:
  "std_sort_contract insertionSort OrderPairsBySizeOfSecondGreater"
  "std_sort_contract insertionSort OrderPairsBySecondOnlyGreater"
proof -
  have "sorted_wrt (\<lambda>x y. \<not> OrderPairsBySizeOfSecondGreater y x)
      (insertionSort OrderPairsBySizeOfSecondGreater xs)" for xs :: "('a \<times> 'b list) list"
    by (rule insertionSort_sorted [where f = "\<lambda>p. length (snd p)"])
      (simp add: OrderPairsBySizeOfSecondGreater_def)
  then show "std_sort_contract insertionSort
      (OrderPairsBySizeOfSecondGreater :: 'a \<times> 'b list \<Rightarrow> 'a \<times> 'b list \<Rightarrow> bool)"
    by (simp add: std_sort_contract_def)
  have "sorted_wrt (\<lambda>x y. \<not> OrderPairsBySecondOnlyGreater y x)
      (insertionSort OrderPairsBySecondOnlyGreater xs)" for xs :: "('c \<times> nat) list"
    by (rule insertionSort_sorted [where f = snd])
      (simp add: OrderPairsBySecondOnlyGreater_def)
  then show "std_sort_contract insertionSort
      (OrderPairsBySecondOnlyGreater :: 'c \<times> nat \<Rightarrow> 'c \<times> nat \<Rightarrow> bool)"
    by (simp add: std_sort_contract_def)
qed

lemma std_sort_contract_mset:
  "std_sort_contract std_sort cmp \<Longrightarrow> mset (std_sort cmp xs) = mset xs"
  by (simp add: std_sort_contract_def)

lemma std_sort_contract_set:
  "std_sort_contract std_sort cmp \<Longrightarrow> set (std_sort cmp xs) = set xs"
  by (rule mset_eq_setD) (rule std_sort_contract_mset)

lemma std_sort_contract_length:
  "std_sort_contract std_sort cmp \<Longrightarrow> length (std_sort cmp xs) = length xs"
  by (rule mset_eq_length) (rule std_sort_contract_mset)

lemma store_simps [simp]:
  "store table [] = table"
  "store table (p # pairs) = store (push_back table (fst p) (snd p)) pairs"
  by (simp_all add: store_def)

lemma scanLoop_accepted:
  "scanLoop t table xs ys = map_option (store table) (accepted t xs ys)"
proof (induction t table xs ys rule: scanLoop.induct)
  case (1 t table ys)
  show ?case by (simp add: scanLoop.simps accepted.simps)
next
  case (2 t table x xs)
  show ?case by (simp add: scanLoop.simps accepted.simps)
next
  case (3 t table x xs y ys)
  show ?case
    apply (subst scanLoop.simps)
    apply (subst accepted.simps)
    apply (simp only: Let_def)
    using 3
    apply (auto simp: Let_def option.map_comp comp_def split: option.splits bool.splits cong: option.map_cong)
    done
qed

lemma findMarkerIdFrom_Some:
  "findMarkerIdFrom xss i0 m = Some (i, j) \<Longrightarrow>
     \<exists>n. i = i0 + n \<and> n < length xss \<and> j < length (xss ! n)
       \<and> m = length (concat (take n xss)) + j"
proof (induction xss arbitrary: i0 m)
  case Nil
  then show ?case by simp
next
  case (Cons xs xss)
  show ?case
  proof (cases "m < length xs")
    case True
    with Cons.prems show ?thesis by (intro exI [of _ 0]) simp
  next
    case False
    with Cons.prems have "findMarkerIdFrom xss (Suc i0) (m - length xs) = Some (i, j)" by simp
    from Cons.IH [OF this] obtain n where "i = Suc i0 + n" "n < length xss"
      "j < length (xss ! n)" "m - length xs = length (concat (take n xss)) + j" by blast
    with False show ?thesis by (intro exI [of _ "Suc n"]) simp
  qed
qed

lemma consistent_marker:
  assumes "consistent t m" and "wf_tables t"
  shows "markerOf t (orientedReadId m) (ordinal m) = markerAt t (markerId m)"
proof -
  from assms(1) obtain i j where
    f: "findMarkerIdFrom (markers t) 0 (unat (markerId m)) = Some (i, j)"
    and i: "orientedReadId m = i" and j: "ordinal m = word_of_nat j"
    by (auto simp: consistent_def findMarkerId_def split: option.splits)
  from findMarkerIdFrom_Some [OF f] have lt: "i < length (markers t)"
    and jlt: "j < length (markers t ! i)"
    and m: "unat (markerId m) = length (concat (take i (markers t))) + j" by auto
  from lt assms(2) have "length (markers t ! i) \<le> 2 ^ 32" by (simp add: wf_tables_def)
  with jlt have "j < 2 ^ 32" by simp
  then have "unat (word_of_nat j :: 32 word) = j" by (simp add: unat_of_nat)
  with i j lt m show ?thesis by (simp add: markerOf_def markerAt_def markersBegin_def)
qed

lemma set_dropWhileD': "set (dropWhile P xs) \<subseteq> set xs"
  by (auto dest: set_dropWhileD)

lemma accepted_sound:
  "accepted t xs ys = Some pairs \<Longrightarrow> p \<in> set pairs \<Longrightarrow>
     \<exists>x \<in> set xs. \<exists>y \<in> set ys. \<exists>marker0 marker1.
        orientedReadId x = orientedReadId y
        \<and> snd p = \<lparr>info_orientedReadId = orientedReadId x,
                    ordinals0 = ordinal x, ordinals1 = ordinal y\<rparr>
        \<and> markerAt t (markerId x) = Some marker0
        \<and> markerAt t (markerId y) = Some marker1
        \<and> fillSequence t (orientedReadId x) marker0 marker1 = Some (fst p)"
proof (induction t xs ys arbitrary: pairs rule: accepted.induct)
  case (1 t ys)
  then show ?case by (simp add: accepted.simps)
next
  case (2 t x xs)
  then show ?case by (simp add: accepted.simps)
next
  case (3 t x xs y ys)
  let ?r = "orientedReadId x"
  let ?xs' = "dropWhile (\<lambda>m. orientedReadId m = ?r) (x # xs)"
  let ?ys' = "dropWhile (\<lambda>m. orientedReadId m = ?r) (y # ys)"
  have sub: "set ?xs' \<subseteq> set (x # xs)" "set ?ys' \<subseteq> set (y # ys)"
    by (rule set_dropWhileD')+
  consider (less) "orientedReadId x < orientedReadId y"
    | (greater) "orientedReadId y < orientedReadId x"
    | (equal) "orientedReadId x = orientedReadId y"
    by (meson linorder_neqE_nat)
  then show ?case
  proof cases
    case less
    with "3.prems" have "accepted t xs (y # ys) = Some pairs"
      by (simp add: accepted.simps)
    from "3.IH"(1) [OF less this "3.prems"(2)] show ?thesis by auto
  next
    case greater
    then have nl: "\<not> orientedReadId x < orientedReadId y" by simp
    from greater "3.prems" have "accepted t (x # xs) ys = Some pairs"
      by (simp add: accepted.simps)
    from "3.IH"(2) [OF nl greater this "3.prems"(2)] show ?thesis by auto
  next
    case equal
    then have nl: "\<not> orientedReadId x < orientedReadId y"
      and ng: "\<not> orientedReadId y < orientedReadId x" by simp_all
    from "3.prems"(1) equal consider
      (rest) "accepted t ?xs' ?ys' = Some pairs"
      | (new) marker0 marker1 s rest where
        "markerAt t (markerId x) = Some marker0" "markerAt t (markerId y) = Some marker1"
        "fillSequence t ?r marker0 marker1 = Some s"
        "accepted t ?xs' ?ys' = Some rest"
        "pairs = (s, \<lparr>info_orientedReadId = ?r,
                      ordinals0 = ordinal x, ordinals1 = ordinal y\<rparr>) # rest"
        "length (x # xs) - length ?xs' = 1 \<and> length (y # ys) - length ?ys' = 1
           \<and> ordinal x < ordinal y"
        "interveningVertexFound t (markerId x + 1) (markerId y) = Some False"
      by (subst (asm) accepted.simps)
        (auto simp: Let_def split: if_splits option.splits bool.splits)
    then show ?thesis
    proof cases
      case rest
      have "\<exists>x' \<in> set ?xs'. \<exists>y' \<in> set ?ys'. \<exists>marker0 marker1.
        orientedReadId x' = orientedReadId y'
        \<and> snd p = \<lparr>info_orientedReadId = orientedReadId x',
                    ordinals0 = ordinal x', ordinals1 = ordinal y'\<rparr>
        \<and> markerAt t (markerId x') = Some marker0
        \<and> markerAt t (markerId y') = Some marker1
        \<and> fillSequence t (orientedReadId x') marker0 marker1 = Some (fst p)"
      proof (cases "length (x # xs) - length ?xs' = 1 \<and> length (y # ys) - length ?ys' = 1
           \<and> ordinal x < ordinal y")
        case True
        show ?thesis
        proof (cases "interveningVertexFound t (markerId x + 1) (markerId y)")
          case None
          with True "3.prems"(1) equal show ?thesis
            by (subst (asm) accepted.simps) (simp add: Let_def)
        next
          case (Some found)
          show ?thesis
          proof (cases found)
            case found: True
            then have "found = True" by simp
            from "3.IH"(3) [OF nl ng refl refl refl True Some this rest "3.prems"(2)]
            show ?thesis .
          next
            case notfound: False
            then have False: "found = False" by simp
            from True Some False "3.prems"(1) equal rest obtain marker0 marker1 s where
              m0: "markerAt t (markerId x) = Some marker0"
              and m1: "markerAt t (markerId y) = Some marker1"
              and fs: "fillSequence t ?r marker0 marker1 = Some s"
              by (subst (asm) accepted.simps)
                (auto simp: Let_def split: if_splits option.splits bool.splits)
            from "3.IH"(4) [OF nl ng refl refl refl True Some False m0 m1 fs rest "3.prems"(2)]
            show ?thesis .
          qed
        qed
      next
        case False
        from "3.IH"(5) [OF nl ng refl refl refl False rest "3.prems"(2)]
        show ?thesis .
      qed
      with sub show ?thesis by blast
    next
      case new
      show ?thesis
      proof (cases "p \<in> set rest")
        case True
        from "3.IH"(4) [OF nl ng refl refl refl new(6) new(7) refl new(1,2,3,4) True]
        have "\<exists>x' \<in> set ?xs'. \<exists>y' \<in> set ?ys'. \<exists>marker0 marker1.
          orientedReadId x' = orientedReadId y'
          \<and> snd p = \<lparr>info_orientedReadId = orientedReadId x',
                      ordinals0 = ordinal x', ordinals1 = ordinal y'\<rparr>
          \<and> markerAt t (markerId x') = Some marker0
          \<and> markerAt t (markerId y') = Some marker1
          \<and> fillSequence t (orientedReadId x') marker0 marker1 = Some (fst p)"
          by simp
        with sub show ?thesis by blast
      next
        case False
        with new(5) "3.prems"(2) have "p = (s, \<lparr>info_orientedReadId = ?r,
                      ordinals0 = ordinal x, ordinals1 = ordinal y\<rparr>)" by simp
        with new(1,2,3) equal show ?thesis by auto
      qed
    qed
  qed
qed


lemma infoLoop_store:
  "(\<And>p. p \<in> set pairs \<Longrightarrow> \<exists>marker0 marker1.
       markerOf t (info_orientedReadId (snd p)) (ordinals0 (snd p)) = Some marker0
       \<and> markerOf t (info_orientedReadId (snd p)) (ordinals1 (snd p)) = Some marker1
       \<and> fillSequence t (info_orientedReadId (snd p)) marker0 marker1 = Some (fst p)) \<Longrightarrow>
   infoLoop t table (map snd pairs) = Some (store table pairs)"
proof (induction pairs arbitrary: table)
  case Nil
  show ?case by simp
next
  case (Cons p pairs)
  from Cons.prems [of p] obtain marker0 marker1 where
    "markerOf t (info_orientedReadId (snd p)) (ordinals0 (snd p)) = Some marker0"
    "markerOf t (info_orientedReadId (snd p)) (ordinals1 (snd p)) = Some marker1"
    "fillSequence t (info_orientedReadId (snd p)) marker0 marker1 = Some (fst p)"
    by auto
  moreover have "infoLoop t (push_back table (fst p) (snd p)) (map snd pairs)
      = Some (store (push_back table (fst p) (snd p)) pairs)"
    by (rule Cons.IH) (use Cons.prems in auto)
  ultimately show ?case by simp
qed

lemma interveningVertexFound_iff:
  "lo \<le> hi \<Longrightarrow> interveningVertexFound t lo hi = Some found \<Longrightarrow>
     found \<longleftrightarrow> (\<exists>mid vertex. lo \<le> mid \<and> mid < hi
        \<and> at (globalMarkerGraphVertex t) (unat mid) = Some vertex \<and> vertex \<noteq> invalid t)"
proof (induction t lo hi rule: interveningVertexFound.induct)
  case (1 t lo hi)
  show ?case
  proof (cases "lo = hi")
    case True
    with "1.prems" show ?thesis by (auto simp: interveningVertexFound.simps)
  next
    case False
    with "1.prems"(1) have lt: "lo < hi" by simp
    then have le: "lo + 1 \<le> hi" by (rule inc_le)
    from lt have next_iff: "lo + 1 \<le> mid \<longleftrightarrow> lo < mid" for mid
      by unat_arith
    from "1.prems"(2) False obtain vertex where
      v: "at (globalMarkerGraphVertex t) (unat lo) = Some vertex"
      by (subst (asm) interveningVertexFound.simps) (auto split: option.splits)
    show ?thesis
    proof (cases "vertex \<noteq> invalid t")
      case True
      with "1.prems"(2) False v have "found"
        by (subst (asm) interveningVertexFound.simps) simp
      moreover from True v lt have "\<exists>mid vertex. lo \<le> mid \<and> mid < hi
        \<and> at (globalMarkerGraphVertex t) (unat mid) = Some vertex \<and> vertex \<noteq> invalid t"
        by (intro exI [of _ lo] exI [of _ vertex]) simp
      ultimately show ?thesis by simp
    next
      case inv: False
      with "1.prems"(2) False v
      have rec: "interveningVertexFound t (lo + 1) hi = Some found"
        by (subst (asm) interveningVertexFound.simps) simp
      from "1.IH" [OF False v _ le rec] inv
      have "found \<longleftrightarrow> (\<exists>mid vertex. lo + 1 \<le> mid \<and> mid < hi
        \<and> at (globalMarkerGraphVertex t) (unat mid) = Some vertex \<and> vertex \<noteq> invalid t)"
        by simp
      also have "\<dots> \<longleftrightarrow> (\<exists>mid vertex. lo \<le> mid \<and> mid < hi
        \<and> at (globalMarkerGraphVertex t) (unat mid) = Some vertex \<and> vertex \<noteq> invalid t)"
      proof -
        have "lo + 1 \<le> mid \<longleftrightarrow> lo \<le> mid"
          if "at (globalMarkerGraphVertex t) (unat mid) = Some vertex'" "vertex' \<noteq> invalid t"
          for mid vertex'
        proof -
          from that v inv have "mid \<noteq> lo" by auto
          then show ?thesis unfolding next_iff by auto
        qed
        then show ?thesis by blast
      qed
      finally show ?thesis .
    qed
  qed
qed

lemma consistent_markerId_less:
  assumes "consistent t x" "consistent t y" "wf_tables t"
    and "orientedReadId x = orientedReadId y" "ordinal x < ordinal y"
  shows "markerId x < markerId y"
proof -
  from assms(1) obtain i j where
    fx: "findMarkerIdFrom (markers t) 0 (unat (markerId x)) = Some (i, j)"
    and ix: "orientedReadId x = i" and jx: "ordinal x = word_of_nat j"
    by (auto simp: consistent_def findMarkerId_def split: option.splits)
  from assms(2) obtain i' j' where
    fy: "findMarkerIdFrom (markers t) 0 (unat (markerId y)) = Some (i', j')"
    and iy: "orientedReadId y = i'" and jy: "ordinal y = word_of_nat j'"
    by (auto simp: consistent_def findMarkerId_def split: option.splits)
  from findMarkerIdFrom_Some [OF fx] have lt: "i < length (markers t)"
    and jlt: "j < length (markers t ! i)"
    and mx: "unat (markerId x) = length (concat (take i (markers t))) + j" by auto
  from findMarkerIdFrom_Some [OF fy] have lt': "i' < length (markers t)"
    and jlt': "j' < length (markers t ! i')"
    and my: "unat (markerId y) = length (concat (take i' (markers t))) + j'" by auto
  from lt lt' assms(3) have "length (markers t ! i) \<le> 2 ^ 32" "length (markers t ! i') \<le> 2 ^ 32"
    by (simp_all add: wf_tables_def)
  with jlt jlt' have "j < 2 ^ 32" "j' < 2 ^ 32" by simp_all
  then have "unat (word_of_nat j :: 32 word) = j" "unat (word_of_nat j' :: 32 word) = j'"
    by (simp_all add: unat_of_nat)
  with assms(5) jx jy have "j < j'" by (simp add: word_less_nat_alt)
  with mx my ix iy assms(4) show ?thesis by (simp add: word_less_nat_alt)
qed

lemma sorted_dropWhile:
  assumes "sorted (map f xs)"
  shows "sorted (map f (dropWhile P xs))"
proof -
  from assms have "sorted (map f (takeWhile P xs @ dropWhile P xs))" by simp
  then show ?thesis unfolding map_append sorted_append by blast
qed

lemma sorted_dropWhile_greater:
  assumes "sorted (map f (x # xs))" and "m \<in> set (dropWhile (\<lambda>m. f m = f x) (x # xs))"
  shows "f x < f m"
proof -
  define d where "d = dropWhile (\<lambda>m. f m = f x) (x # xs)"
  from assms(2) have m: "m \<in> set d" by (simp only: d_def)
  then obtain h tl where d: "d = h # tl" by (cases d) auto
  have "d \<noteq> [] \<Longrightarrow> f (hd d) \<noteq> f x"
    unfolding d_def by (rule hd_dropWhile)
  with d have "f h \<noteq> f x" by simp
  moreover have "set d \<subseteq> set (x # xs)"
    unfolding d_def by (rule set_dropWhileD')
  with d have "h \<in> set (x # xs)" by auto
  with assms(1) have "f x \<le> f h" by auto
  ultimately have "f x < f h" by simp
  moreover have "sorted (map f d)"
    unfolding d_def by (rule sorted_dropWhile [OF assms(1)])
  with d m have "f h \<le> f m" by auto
  ultimately show ?thesis by simp
qed

lemma filter_streak:
  assumes "sorted (map f (x # xs))"
  shows "filter (\<lambda>m. f m = r) (x # xs) =
     (if r = f x then takeWhile (\<lambda>m. f m = f x) (x # xs)
      else filter (\<lambda>m. f m = r) (dropWhile (\<lambda>m. f m = f x) (x # xs)))"
proof -
  define l where "l = x # xs"
  define tw where "tw = takeWhile (\<lambda>m. f m = f x) l"
  define dw where "dw = dropWhile (\<lambda>m. f m = f x) l"
  have l: "l = tw @ dw" by (simp add: tw_def dw_def)
  have tw: "\<forall>m \<in> set tw. f m = f x"
    unfolding tw_def by (auto dest: set_takeWhileD)
  have dw: "\<forall>m \<in> set dw. f m \<noteq> f x"
  proof
    fix m assume "m \<in> set dw"
    then have "m \<in> set (dropWhile (\<lambda>m. f m = f x) (x # xs))"
      by (simp only: dw_def l_def)
    from sorted_dropWhile_greater [OF assms this] show "f m \<noteq> f x" by simp
  qed
  have "filter (\<lambda>m. f m = r) l = (if r = f x then tw else filter (\<lambda>m. f m = r) dw)"
  proof (cases "r = f x")
    case True
    from tw True have "filter (\<lambda>m. f m = r) tw = tw"
      by (intro filter_True) simp
    moreover from dw True have "filter (\<lambda>m. f m = r) dw = []"
      by (intro filter_False) simp
    ultimately show ?thesis using True by (simp add: l)
  next
    case False
    from tw False have "filter (\<lambda>m. f m = r) tw = []"
      by (intro filter_False) auto
    with False show ?thesis by (simp add: l)
  qed
  then show ?thesis by (simp only: l_def tw_def dw_def)
qed

lemma streak_one:
  "P x \<Longrightarrow> length (x # xs) - length (dropWhile P (x # xs)) = 1 \<longleftrightarrow> takeWhile P (x # xs) = [x]"
proof -
  assume "P x"
  have "length (takeWhile P xs) + length (dropWhile P xs) = length xs"
    by (metis length_append takeWhile_dropWhile_id)
  then have "Suc (length xs) - length (dropWhile P xs) = 1 \<longleftrightarrow> length (takeWhile P xs) = 0"
    by arith
  with \<open>P x\<close> show ?thesis by simp
qed

lemma accepted_equal:
  assumes "orientedReadId x = orientedReadId y"
    and "accepted t (x # xs) (y # ys) = Some pairs"
  shows "\<exists>rest. accepted t (dropWhile (\<lambda>m. orientedReadId m = orientedReadId x) (x # xs))
                   (dropWhile (\<lambda>m. orientedReadId m = orientedReadId x) (y # ys)) = Some rest
     \<and> (if takeWhile (\<lambda>m. orientedReadId m = orientedReadId x) (x # xs) = [x]
            \<and> takeWhile (\<lambda>m. orientedReadId m = orientedReadId x) (y # ys) = [y]
            \<and> ordinal x < ordinal y
         then \<exists>found. interveningVertexFound t (markerId x + 1) (markerId y) = Some found
            \<and> (if found then pairs = rest
                else \<exists>s. pairs = (s, \<lparr>info_orientedReadId = orientedReadId x,
                       ordinals0 = ordinal x, ordinals1 = ordinal y\<rparr>) # rest)
         else pairs = rest)"
proof -
  let ?P = "\<lambda>m. orientedReadId m = orientedReadId x"
  have sx: "length (x # xs) - length (dropWhile ?P (x # xs)) = 1 \<longleftrightarrow> takeWhile ?P (x # xs) = [x]"
    by (rule streak_one) simp
  have sy: "length (y # ys) - length (dropWhile ?P (y # ys)) = 1 \<longleftrightarrow> takeWhile ?P (y # ys) = [y]"
    by (rule streak_one) (simp add: assms(1))
  from assms(2) show ?thesis
    apply (subst (asm) accepted.simps)
    apply (simp only: Let_def sx sy assms(1) [symmetric])
    apply (simp only: assms(1) [symmetric] less_irrefl if_False)
    apply (auto split: if_splits option.splits bool.splits)
    done
qed


lemma qualifies_Nil [simp]: "\<not> qualifies t [] ys info" "\<not> qualifies t xs [] info"
  by (simp_all add: qualifies_def)

lemma qualifies_skip_left:
  assumes "sorted (map orientedReadId (y # ys))" and "orientedReadId x < orientedReadId y"
  shows "qualifies t (x # xs) (y # ys) info \<longleftrightarrow> qualifies t xs (y # ys) info"
proof (cases "orientedReadId x = info_orientedReadId info")
  case True
  from assms have "\<forall>m \<in> set (y # ys). orientedReadId m \<noteq> info_orientedReadId info"
    using True by auto
  then have "filter (\<lambda>m. orientedReadId m = info_orientedReadId info) (y # ys) = []"
    by (intro filter_False) simp
  then show ?thesis by (simp add: qualifies_def)
next
  case False
  then show ?thesis by (simp add: qualifies_def)
qed

lemma qualifies_skip_right:
  assumes "sorted (map orientedReadId (x # xs))" and "orientedReadId y < orientedReadId x"
  shows "qualifies t (x # xs) (y # ys) info \<longleftrightarrow> qualifies t (x # xs) ys info"
proof (cases "orientedReadId y = info_orientedReadId info")
  case True
  from assms have "\<forall>m \<in> set (x # xs). orientedReadId m \<noteq> info_orientedReadId info"
    using True by auto
  then have "filter (\<lambda>m. orientedReadId m = info_orientedReadId info) (x # xs) = []"
    by (intro filter_False) simp
  then show ?thesis by (simp add: qualifies_def)
next
  case False
  then show ?thesis by (simp add: qualifies_def)
qed

lemma accepted_iff:
  assumes wf: "wf_tables t"
  shows "sorted (map orientedReadId xs) \<Longrightarrow> sorted (map orientedReadId ys) \<Longrightarrow>
     \<forall>m \<in> set xs \<union> set ys. consistent t m \<Longrightarrow>
     accepted t xs ys = Some pairs \<Longrightarrow>
     info \<in> snd ` set pairs \<longleftrightarrow> qualifies t xs ys info"
proof (induction "length xs + length ys" arbitrary: xs ys pairs info rule: less_induct)
  case less
  show ?case
  proof (cases xs)
    case Nil
    with less.prems(4) show ?thesis by (simp add: accepted.simps)
  next
    case xs: (Cons x xs')
    show ?thesis
    proof (cases ys)
      case Nil
      with xs less.prems(4) show ?thesis by (simp add: accepted.simps)
    next
      case ys: (Cons y ys')
      consider (lt) "orientedReadId x < orientedReadId y"
        | (gt) "orientedReadId y < orientedReadId x"
        | (eq) "orientedReadId x = orientedReadId y"
        by (meson linorder_neqE_nat)
      then show ?thesis
      proof cases
        case lt
        with less.prems(4) xs ys have acc: "accepted t xs' ys = Some pairs"
          by (simp add: accepted.simps)
        have "info \<in> snd ` set pairs \<longleftrightarrow> qualifies t xs' ys info"
          by (rule less.hyps [OF _ _ _ _ acc]) (use less.prems xs in auto)
        also have "\<dots> \<longleftrightarrow> qualifies t xs ys info"
          unfolding xs ys
          by (rule qualifies_skip_left [symmetric]) (use less.prems(2) ys lt in auto)
        finally show ?thesis .
      next
        case gt
        with less.prems(4) xs ys have acc: "accepted t xs ys' = Some pairs"
          by (simp add: accepted.simps)
        have "info \<in> snd ` set pairs \<longleftrightarrow> qualifies t xs ys' info"
          by (rule less.hyps [OF _ _ _ _ acc]) (use less.prems ys in auto)
        also have "\<dots> \<longleftrightarrow> qualifies t xs ys info"
          unfolding xs ys
          by (rule qualifies_skip_right [symmetric]) (use less.prems(1) xs gt in auto)
        finally show ?thesis .
      next
        case eq
        let ?r = "orientedReadId x"
        let ?P = "\<lambda>m. orientedReadId m = ?r"
        define xd where "xd = dropWhile ?P (x # xs')"
        define yd where "yd = dropWhile ?P (y # ys')"
        define xt where "xt = takeWhile ?P (x # xs')"
        define yt where "yt = takeWhile ?P (y # ys')"
        define new where "new = \<lparr>info_orientedReadId = ?r,
                       ordinals0 = ordinal x, ordinals1 = ordinal y\<rparr>"
        from less.prems(1,2) xs ys have sx: "sorted (map orientedReadId (x # xs'))"
          and sy: "sorted (map orientedReadId (y # ys'))" by simp_all
        from sy eq have sy': "sorted (map orientedReadId (y # ys'))"
          and Py: "orientedReadId y = ?r" by simp_all
        from accepted_equal [OF eq less.prems(4) [unfolded xs ys]]
        obtain rest where rest: "accepted t xd yd = Some rest"
          and pairs: "if xt = [x] \<and> yt = [y] \<and> ordinal x < ordinal y
            then \<exists>found. interveningVertexFound t (markerId x + 1) (markerId y) = Some found
               \<and> (if found then pairs = rest else \<exists>s. pairs = (s, new) # rest)
            else pairs = rest"
          unfolding xd_def yd_def xt_def yt_def new_def by blast
        have lenx: "length xd \<le> length xs'" and leny: "length yd \<le> length ys'"
          unfolding xd_def yd_def using eq by (simp_all add: length_dropWhile_le)
        have subx: "set xd \<subseteq> set xs" and suby: "set yd \<subseteq> set ys"
          unfolding xd_def yd_def xs ys by (rule set_dropWhileD')+
        have IH: "info' \<in> snd ` set rest \<longleftrightarrow> qualifies t xd yd info'" for info'
        proof (rule less.hyps [OF _ _ _ _ rest])
          show "length xd + length yd < length xs + length ys"
            using lenx leny xs ys by simp
          show "sorted (map orientedReadId xd)"
            unfolding xd_def by (rule sorted_dropWhile [OF sx])
          show "sorted (map orientedReadId yd)"
            unfolding yd_def by (rule sorted_dropWhile [OF sy])
          show "\<forall>m \<in> set xd \<union> set yd. consistent t m"
            using less.prems(3) subx suby by blast
        qed
        have fx: "filter (\<lambda>m. orientedReadId m = r) xs =
            (if r = ?r then xt else filter (\<lambda>m. orientedReadId m = r) xd)" for r
          unfolding xs xt_def xd_def by (rule filter_streak [OF sx])
        have fy: "filter (\<lambda>m. orientedReadId m = r) ys =
            (if r = ?r then yt else filter (\<lambda>m. orientedReadId m = r) yd)" for r
          unfolding ys yt_def yd_def
          using filter_streak [OF sy, of r] by (simp only: Py)
        have xd_none: "filter (\<lambda>m. orientedReadId m = ?r) xd = []"
        proof (rule filter_False, rule ballI)
          fix m assume "m \<in> set xd"
          then have "m \<in> set (dropWhile (\<lambda>m. orientedReadId m = orientedReadId x) (x # xs'))"
            by (simp only: xd_def)
          from sorted_dropWhile_greater [OF sx this] show "orientedReadId m \<noteq> ?r" by simp
        qed
        show ?thesis
        proof (cases "info_orientedReadId info = ?r")
          case other: False
          then have "info \<noteq> new" by (auto simp: new_def)
          with pairs have "info \<in> snd ` set pairs \<longleftrightarrow> info \<in> snd ` set rest"
            by (auto split: if_splits)
          also have "\<dots> \<longleftrightarrow> qualifies t xd yd info" by (rule IH)
          also have "\<dots> \<longleftrightarrow> qualifies t xs ys info"
            unfolding qualifies_def fx fy using other by simp
          finally show ?thesis .
        next
          case same: True
          have "\<not> qualifies t xd yd info'" if "info_orientedReadId info' = ?r" for info'
            using that xd_none by (simp add: qualifies_def)
          with IH have norest: "info' \<notin> snd ` set rest" if "info_orientedReadId info' = ?r" for info'
            using that by blast
          have q: "qualifies t xs ys info \<longleftrightarrow>
              xt = [x] \<and> yt = [y] \<and> info = new \<and> ordinal x < ordinal y
              \<and> \<not> (\<exists>mid vertex. markerId x < mid \<and> mid < markerId y
                \<and> at (globalMarkerGraphVertex t) (unat mid) = Some vertex
                \<and> vertex \<noteq> invalid t)"
          proof -
            have hd: "\<exists>tl. xt = x # tl" "\<exists>tl. yt = y # tl"
              unfolding xt_def yt_def using eq by simp_all
            have "info = new \<longleftrightarrow> ordinals0 info = ordinal x \<and> ordinals1 info = ordinal y"
              using same by (cases info) (auto simp: new_def)
            with hd show ?thesis
              unfolding qualifies_def fx fy using same by auto
          qed
          show ?thesis
          proof (cases "xt = [x] \<and> yt = [y] \<and> ordinal x < ordinal y")
            case False
            with pairs have "pairs = rest" by simp
            with norest [OF same] have "info \<notin> snd ` set pairs" by simp
            with False q show ?thesis by blast
          next
            case True
            with pairs obtain found where
              found: "interveningVertexFound t (markerId x + 1) (markerId y) = Some found"
              and p: "if found then pairs = rest else \<exists>s. pairs = (s, new) # rest"
              by auto
            from less.prems(3) xs ys have "consistent t x" "consistent t y" by simp_all
            from consistent_markerId_less [OF this wf eq] True
            have lt: "markerId x < markerId y" by simp
            then have le: "markerId x + 1 \<le> markerId y" by (rule inc_le)
            from lt have next_iff: "markerId x + 1 \<le> mid \<longleftrightarrow> markerId x < mid" for mid
              by unat_arith
            from interveningVertexFound_iff [OF le found]
            have f: "found \<longleftrightarrow> (\<exists>mid vertex. markerId x < mid \<and> mid < markerId y
                \<and> at (globalMarkerGraphVertex t) (unat mid) = Some vertex
                \<and> vertex \<noteq> invalid t)"
              by (simp only: next_iff)
            show ?thesis
            proof (cases found)
              case True
              with p have "pairs = rest" by simp
              with norest [OF same] have "info \<notin> snd ` set pairs" by simp
              with True f q show ?thesis by blast
            next
              case False
              with p obtain s where "pairs = (s, new) # rest" by auto
              with norest [OF same] have "info \<in> snd ` set pairs \<longleftrightarrow> info = new" by auto
              with False f q True show ?thesis by blast
            qed
          qed
        qed
      qed
    qed
  qed
qed

lemma push_back_infos:
  "set (concat (map snd (push_back table s info))) = insert info (set (concat (map snd table)))"
proof (induction table)
  case Nil
  show ?case by simp
next
  case (Cons group table)
  obtain s' group_infos where group: "group = (s', group_infos)" by (cases group)
  consider (less) "Sequence_key s < Sequence_key s'"
    | (greater) "\<not> Sequence_key s < Sequence_key s'" "Sequence_key s' < Sequence_key s"
    | (equal) "\<not> Sequence_key s < Sequence_key s'" "\<not> Sequence_key s' < Sequence_key s"
    by blast
  then show ?case
  proof cases
    case less
    then show ?thesis by (simp add: group)
  next
    case greater
    then have "set (concat (map snd (push_back (group # table) s info)))
        = set group_infos \<union> set (concat (map snd (push_back table s info)))"
      by (simp add: group)
    also have "\<dots> = set group_infos \<union> insert info (set (concat (map snd table)))"
      by (simp only: Cons.IH)
    finally show ?thesis by (simp add: group)
  next
    case equal
    then show ?thesis by (simp add: group)
  qed
qed

lemma store_infos:
  "set (concat (map snd (store table pairs))) = set (concat (map snd table)) \<union> snd ` set pairs"
proof (induction pairs arbitrary: table)
  case Nil
  show ?case by simp
next
  case (Cons p pairs)
  have "set (concat (map snd (store table (p # pairs))))
      = set (concat (map snd (push_back table (fst p) (snd p)))) \<union> snd ` set pairs"
    by (simp only: store_simps Cons.IH)
  also have "\<dots> = set (concat (map snd table)) \<union> snd ` set (p # pairs)"
    by (simp only: push_back_infos) auto
  finally show ?case .
qed

lemma example_wf_tables: "wf_tables exampleTables"
  by (simp add: wf_tables_def exampleTables_def)

lemma example_consistent:
  "\<forall>m \<in> set (markerInfos (vertices exampleGraph ! 0))
       \<union> set (markerInfos (vertices exampleGraph ! 1)). consistent exampleTables m"
  by (simp add: exampleGraph_def consistent_def findMarkerId_def exampleTables_def)

lemma example_accepted:
  "accepted exampleTables (markerInfos (vertices exampleGraph ! 0))
     (markerInfos (vertices exampleGraph ! 1))
   = Some [(\<lparr>overlappingBaseCount = 0, sequence = [BaseA, BaseC]\<rparr>,
            \<lparr>info_orientedReadId = 0, ordinals0 = 0, ordinals1 = 2\<rparr>)]"
  by code_simp

lemma example_storeEdgeInfo:
  "map_option (\<lambda>graph. infos (edges graph ! 0)) (storeEdgeInfo insertionSort exampleTables 0 exampleGraph)
   = Some [(\<lparr>overlappingBaseCount = 0, sequence = [BaseA, BaseC]\<rparr>,
            [\<lparr>info_orientedReadId = 0, ordinals0 = 0, ordinals1 = 2\<rparr>])]"
  by code_simp

lemma example_graph_at:
  "at (edges exampleGraph) 0 = Some (edges exampleGraph ! 0)"
  "at (vertices exampleGraph) (source (edges exampleGraph ! 0)) = Some (vertices exampleGraph ! 0)"
  "at (vertices exampleGraph) (target (edges exampleGraph ! 0)) = Some (vertices exampleGraph ! 1)"
  "sorted (map orientedReadId (markerInfos (vertices exampleGraph ! 0)))"
  "sorted (map orientedReadId (markerInfos (vertices exampleGraph ! 1)))"
  by (simp_all add: exampleGraph_def at_def)

text \<open>
  C3: let the marker lists of the two vertices of an edge be sorted by oriented read and
  be as \<open>addVertex\<close> builds them. After the first overload of \<open>storeEdgeInfo\<close> an observation
  is in a group of the edge if and only if it qualifies: its oriented read has exactly one
  marker in each of the two lists, the ordinal in the source vertex is less than the one
  in the target vertex, and no marker id between the ids of the two markers has a vertex of
  the global marker graph.
\<close>

theorem storeEdgeInfo_accepts:
  assumes "wf_tables t"
    and "at (edges graph) e = Some edge"
    and "at (vertices graph) (source edge) = Some vertex0"
    and "at (vertices graph) (target edge) = Some vertex1"
    and "sorted (map orientedReadId (markerInfos vertex0))"
    and "sorted (map orientedReadId (markerInfos vertex1))"
    and "\<forall>m \<in> set (markerInfos vertex0) \<union> set (markerInfos vertex1). consistent t m"
    and "storeEdgeInfo std_sort t e graph = Some graph'"
    and "std_sort_contract std_sort OrderPairsBySizeOfSecondGreater"
  shows "(\<exists>group \<in> set (infos (edges graph' ! e)). info \<in> set (snd group))
     \<longleftrightarrow> qualifies t (markerInfos vertex0) (markerInfos vertex1) info"
proof -
  from assms(2) have e: "e < length (edges graph)" by (simp add: at_Some)
  from assms(8) assms(2,3,4) obtain pairs where
    acc: "accepted t (markerInfos vertex0) (markerInfos vertex1) = Some pairs"
    and graph': "graph' = graph\<lparr>edges := (edges graph)
         [e := edge\<lparr>infos := std_sort OrderPairsBySizeOfSecondGreater (store [] pairs)\<rparr>]\<rparr>"
    by (auto simp: storeEdgeInfo_def scanLoop_accepted split: option.splits)
  from graph' e have "infos (edges graph' ! e)
      = std_sort OrderPairsBySizeOfSecondGreater (store [] pairs)" by simp
  then have "(\<exists>group \<in> set (infos (edges graph' ! e)). info \<in> set (snd group))
      \<longleftrightarrow> info \<in> set (concat (map snd (store [] pairs)))"
    by (auto simp: std_sort_contract_set [OF assms(9)])
  also have "\<dots> \<longleftrightarrow> info \<in> snd ` set pairs"
    using store_infos [of "[]" pairs] by (simp only: list.map concat.simps list.set Un_empty_left)
  also have "\<dots> \<longleftrightarrow> qualifies t (markerInfos vertex0) (markerInfos vertex1) info"
    by (rule accepted_iff [OF assms(1,5,6,7) acc])
  finally show ?thesis .
qed

theorem storeEdgeInfo_accepts_witness:
  "\<exists>graph'. storeEdgeInfo insertionSort exampleTables 0 exampleGraph = Some graph'
     \<and> infos (edges graph' ! 0) = [(\<lparr>overlappingBaseCount = 0, sequence = [BaseA, BaseC]\<rparr>,
            [\<lparr>info_orientedReadId = 0, ordinals0 = 0, ordinals1 = 2\<rparr>])]
     \<and> qualifies exampleTables (markerInfos (vertices exampleGraph ! 0))
          (markerInfos (vertices exampleGraph ! 1))
          \<lparr>info_orientedReadId = 0, ordinals0 = 0, ordinals1 = 2\<rparr>
     \<and> \<not> qualifies exampleTables (markerInfos (vertices exampleGraph ! 0))
          (markerInfos (vertices exampleGraph ! 1))
          \<lparr>info_orientedReadId = 1, ordinals0 = 2, ordinals1 = 0\<rparr>"
proof -
  from example_storeEdgeInfo obtain graph' where
    run: "storeEdgeInfo insertionSort exampleTables 0 exampleGraph = Some graph'"
    and infos: "infos (edges graph' ! 0) = [(\<lparr>overlappingBaseCount = 0, sequence = [BaseA, BaseC]\<rparr>,
            [\<lparr>info_orientedReadId = 0, ordinals0 = 0, ordinals1 = 2\<rparr>])]"
    by auto
  note iff = storeEdgeInfo_accepts [OF example_wf_tables example_graph_at example_consistent run
      insertionSort_contract(1)]
  from iff [of "\<lparr>info_orientedReadId = 0, ordinals0 = 0, ordinals1 = 2\<rparr>"] infos
  have "qualifies exampleTables (markerInfos (vertices exampleGraph ! 0))
          (markerInfos (vertices exampleGraph ! 1))
          \<lparr>info_orientedReadId = 0, ordinals0 = 0, ordinals1 = 2\<rparr>" by simp
  moreover from iff [of "\<lparr>info_orientedReadId = 1, ordinals0 = 2, ordinals1 = 0\<rparr>"] infos
  have "\<not> qualifies exampleTables (markerInfos (vertices exampleGraph ! 0))
          (markerInfos (vertices exampleGraph ! 1))
          \<lparr>info_orientedReadId = 1, ordinals0 = 2, ordinals1 = 0\<rparr>" by simp
  ultimately show ?thesis using run infos by blast
qed

text \<open>
  C8: when the second overload of \<open>storeEdgeInfo\<close> is given the observations that the first
  overload accepts, in the order in which it accepts them, both overloads give the same
  result: the same graph, with the same groups in the same order for the edge. The marker
  lists of the two vertices are as \<open>addVertex\<close> builds them.
\<close>

theorem storeEdgeInfo_overloads_agree:
  assumes "wf_tables t"
    and "at (edges graph) e = Some edge"
    and "at (vertices graph) (source edge) = Some vertex0"
    and "at (vertices graph) (target edge) = Some vertex1"
    and "\<forall>m \<in> set (markerInfos vertex0) \<union> set (markerInfos vertex1). consistent t m"
    and "accepted t (markerInfos vertex0) (markerInfos vertex1) = Some pairs"
  shows "storeEdgeInfo_infoVector std_sort t e (map snd pairs) graph = storeEdgeInfo std_sort t e graph
     \<and> (\<exists>graph'. storeEdgeInfo std_sort t e graph = Some graph'
          \<and> infos (edges graph' ! e) = std_sort OrderPairsBySizeOfSecondGreater (store [] pairs))"
proof -
  have "\<exists>marker0 marker1.
       markerOf t (info_orientedReadId (snd p)) (ordinals0 (snd p)) = Some marker0
       \<and> markerOf t (info_orientedReadId (snd p)) (ordinals1 (snd p)) = Some marker1
       \<and> fillSequence t (info_orientedReadId (snd p)) marker0 marker1 = Some (fst p)"
    if "p \<in> set pairs" for p
  proof -
    from accepted_sound [OF assms(6) that] obtain x y marker0 marker1 where
      x: "x \<in> set (markerInfos vertex0)" and y: "y \<in> set (markerInfos vertex1)"
      and eq: "orientedReadId x = orientedReadId y"
      and p: "snd p = \<lparr>info_orientedReadId = orientedReadId x,
                    ordinals0 = ordinal x, ordinals1 = ordinal y\<rparr>"
      and m: "markerAt t (markerId x) = Some marker0" "markerAt t (markerId y) = Some marker1"
        "fillSequence t (orientedReadId x) marker0 marker1 = Some (fst p)"
      by blast
    from x y assms(5) have "consistent t x" "consistent t y" by auto
    from this [THEN consistent_marker [OF _ assms(1)]] m eq p
    show ?thesis by simp
  qed
  then have "infoLoop t [] (map snd pairs) = Some (store [] pairs)"
    by (rule infoLoop_store)
  moreover have "scanLoop t [] (markerInfos vertex0) (markerInfos vertex1) = Some (store [] pairs)"
    by (simp add: scanLoop_accepted assms(6))
  moreover from assms(2) have "e < length (edges graph)" by (simp add: at_Some)
  ultimately show ?thesis
    using assms(2,3,4) by (simp add: storeEdgeInfo_def storeEdgeInfo_infoVector_def)
qed

theorem storeEdgeInfo_overloads_agree_witness:
  "storeEdgeInfo_infoVector insertionSort exampleTables 0
       [\<lparr>info_orientedReadId = 0, ordinals0 = 0, ordinals1 = 2\<rparr>] exampleGraph
     = storeEdgeInfo insertionSort exampleTables 0 exampleGraph
   \<and> (\<exists>graph'. storeEdgeInfo insertionSort exampleTables 0 exampleGraph = Some graph'
        \<and> infos (edges graph' ! 0) = [(\<lparr>overlappingBaseCount = 0, sequence = [BaseA, BaseC]\<rparr>,
            [\<lparr>info_orientedReadId = 0, ordinals0 = 0, ordinals1 = 2\<rparr>])])"
proof -
  from storeEdgeInfo_overloads_agree [OF example_wf_tables example_graph_at(1,2,3)
      example_consistent example_accepted]
  have "storeEdgeInfo_infoVector insertionSort exampleTables 0
       [\<lparr>info_orientedReadId = 0, ordinals0 = 0, ordinals1 = 2\<rparr>] exampleGraph
     = storeEdgeInfo insertionSort exampleTables 0 exampleGraph" by simp
  moreover from example_storeEdgeInfo
  have "\<exists>graph'. storeEdgeInfo insertionSort exampleTables 0 exampleGraph = Some graph'
        \<and> infos (edges graph' ! 0) = [(\<lparr>overlappingBaseCount = 0, sequence = [BaseA, BaseC]\<rparr>,
            [\<lparr>info_orientedReadId = 0, ordinals0 = 0, ordinals1 = 2\<rparr>])]" by auto
  ultimately show ?thesis by blast
qed

subsection \<open>The sequences stored\<close>

text \<open>
  Equal keys of the sequence table are equal sequences, so that an observation is stored
  under the sequence computed for it, and the table keeps its keys apart.
\<close>

lemma Base_value_inj: "Base_value a = Base_value b \<Longrightarrow> a = b"
  by (cases a; cases b) simp_all

lemma Sequence_key_inj:
  fixes s s' :: Sequence
  assumes "Sequence_key s = Sequence_key s'"
  shows "s = s'"
proof -
  from assms have "unat (overlappingBaseCount s) = unat (overlappingBaseCount s')"
    and m: "map Base_value (sequence s) = map Base_value (sequence s')"
    by (simp_all add: Sequence_key_def)
  then have "overlappingBaseCount s = overlappingBaseCount s'" by (simp add: word_unat_eq_iff)
  moreover from m have "sequence s = sequence s'"
    by (rule map_injective) (auto simp: inj_on_def dest: Base_value_inj)
  ultimately show ?thesis by simp
qed

lemma push_back_groups:
  "g \<in> set (push_back table s info) \<Longrightarrow> i \<in> set (snd g) \<Longrightarrow>
     (\<exists>g0 \<in> set table. fst g0 = fst g \<and> i \<in> set (snd g0))
     \<or> (fst g = s \<and> i = info)"
proof (induction table)
  case Nil
  then show ?case by simp
next
  case (Cons entry table)
  obtain s' infoList where entry: "entry = (s', infoList)" by (cases entry)
  consider (less) "Sequence_key s < Sequence_key s'"
    | (greater) "\<not> Sequence_key s < Sequence_key s'" "Sequence_key s' < Sequence_key s"
    | (equal) "\<not> Sequence_key s < Sequence_key s'" "\<not> Sequence_key s' < Sequence_key s"
    by blast
  then show ?case
  proof cases
    case less
    with Cons.prems entry show ?thesis by auto
  next
    case greater
    with Cons.prems entry have "g = entry \<or> g \<in> set (push_back table s info)" by auto
    then show ?thesis
    proof
      assume "g = entry"
      with Cons.prems(2) show ?thesis by auto
    next
      assume "g \<in> set (push_back table s info)"
      from Cons.IH [OF this Cons.prems(2)] show ?thesis by auto
    qed
  next
    case equal
    then have "Sequence_key s = Sequence_key s'" by simp
    then have s: "s = s'" by (rule Sequence_key_inj)
    from equal Cons.prems(1) entry have "g = (s', infoList @ [info]) \<or> g \<in> set table"
      by auto
    then show ?thesis
    proof
      assume "g = (s', infoList @ [info])"
      with Cons.prems(2) entry s show ?thesis by auto
    next
      assume "g \<in> set table"
      with Cons.prems(2) show ?thesis by auto
    qed
  qed
qed

lemma store_groups:
  "g \<in> set (store table pairs) \<Longrightarrow> i \<in> set (snd g) \<Longrightarrow>
     (\<exists>g0 \<in> set table. fst g0 = fst g \<and> i \<in> set (snd g0))
     \<or> (fst g, i) \<in> set pairs"
proof (induction pairs arbitrary: table)
  case Nil
  then show ?case by auto
next
  case (Cons p pairs)
  from Cons.prems have "g \<in> set (store (push_back table (fst p) (snd p)) pairs)" by simp
  from Cons.IH [OF this Cons.prems(2)] show ?case
  proof
    assume "\<exists>g0 \<in> set (push_back table (fst p) (snd p)).
        fst g0 = fst g \<and> i \<in> set (snd g0)"
    then obtain g0 where g: "g0 \<in> set (push_back table (fst p) (snd p))"
      "fst g0 = fst g" "i \<in> set (snd g0)" by blast
    from push_back_groups [OF g(1,3)] g(2) show ?thesis
      by (cases p) auto
  next
    assume "(fst g, i) \<in> set pairs"
    then show ?thesis by simp
  qed
qed

lemma push_back_keys:
  "fst ` set (push_back table s info) = insert s (fst ` set table)"
proof (induction table)
  case Nil
  show ?case by simp
next
  case (Cons entry table)
  obtain s' infoList where entry: "entry = (s', infoList)" by (cases entry)
  consider (less) "Sequence_key s < Sequence_key s'"
    | (greater) "\<not> Sequence_key s < Sequence_key s'" "Sequence_key s' < Sequence_key s"
    | (equal) "\<not> Sequence_key s < Sequence_key s'" "\<not> Sequence_key s' < Sequence_key s"
    by blast
  then show ?case
  proof cases
    case less
    with entry show ?thesis by auto
  next
    case greater
    with entry Cons.IH show ?thesis by auto
  next
    case equal
    then have "Sequence_key s = Sequence_key s'" by simp
    then have "s = s'" by (rule Sequence_key_inj)
    with equal entry show ?thesis by auto
  qed
qed

lemma push_back_keysSorted:
  assumes "keysSorted table"
  shows "keysSorted (push_back table s info)"
  using assms
proof (induction table)
  case Nil
  show ?case by (simp add: keysSorted_def)
next
  case (Cons entry table)
  obtain s' infoList where entry: "entry = (s', infoList)" by (cases entry)
  from Cons.prems have tail: "keysSorted table"
    and head: "\<forall>g \<in> set table. Sequence_key s' < Sequence_key (fst g)"
    and ne: "infoList \<noteq> []"
    by (auto simp: keysSorted_def entry)
  consider (less) "Sequence_key s < Sequence_key s'"
    | (greater) "\<not> Sequence_key s < Sequence_key s'" "Sequence_key s' < Sequence_key s"
    | (equal) "\<not> Sequence_key s < Sequence_key s'" "\<not> Sequence_key s' < Sequence_key s"
    by blast
  then show ?case
  proof cases
    case less
    with Cons.prems entry head show ?thesis
      by (auto simp: keysSorted_def)
  next
    case greater
    from Cons.IH [OF tail] have IH: "keysSorted (push_back table s info)" .
    have "\<forall>g \<in> set (push_back table s info). Sequence_key s' < Sequence_key (fst g)"
    proof
      fix g assume "g \<in> set (push_back table s info)"
      then have "fst g \<in> fst ` set (push_back table s info)" by (rule imageI)
      then have "fst g = s \<or> fst g \<in> fst ` set table" by (simp add: push_back_keys)
      with head greater(2) show "Sequence_key s' < Sequence_key (fst g)" by auto
    qed
    with IH greater entry ne show ?thesis by (simp add: keysSorted_def)
  next
    case equal
    with Cons.prems entry show ?thesis by (simp add: keysSorted_def)
  qed
qed

lemma store_keysSorted:
  "keysSorted table \<Longrightarrow> keysSorted (store table pairs)"
  by (induction pairs arbitrary: table) (simp_all add: push_back_keysSorted)

lemma keysSorted_distinct:
  assumes "keysSorted table"
  shows "distinct (map fst table)" and "\<forall>g \<in> set table. snd g \<noteq> []"
proof -
  from assms have "sorted_wrt (\<lambda>a b. Sequence_key (fst a) < Sequence_key (fst b)) table"
    by (simp add: keysSorted_def)
  then show "distinct (map fst table)"
    by (induction table) auto
  from assms show "\<forall>g \<in> set table. snd g \<noteq> []" by (simp add: keysSorted_def)
qed

lemma accepted_fillSequence:
  assumes "wf_tables t" and "\<forall>m \<in> set xs \<union> set ys. consistent t m"
    and "accepted t xs ys = Some pairs" and "p \<in> set pairs"
  shows "\<exists>marker0 marker1.
       markerOf t (info_orientedReadId (snd p)) (ordinals0 (snd p)) = Some marker0
       \<and> markerOf t (info_orientedReadId (snd p)) (ordinals1 (snd p)) = Some marker1
       \<and> fillSequence t (info_orientedReadId (snd p)) marker0 marker1 = Some (fst p)"
proof -
  from accepted_sound [OF assms(3,4)] obtain x y marker0 marker1 where
    x: "x \<in> set xs" and y: "y \<in> set ys"
    and eq: "orientedReadId x = orientedReadId y"
    and p: "snd p = \<lparr>info_orientedReadId = orientedReadId x,
                  ordinals0 = ordinal x, ordinals1 = ordinal y\<rparr>"
    and m: "markerAt t (markerId x) = Some marker0" "markerAt t (markerId y) = Some marker1"
      "fillSequence t (orientedReadId x) marker0 marker1 = Some (fst p)"
    by blast
  from x y assms(2) have "consistent t x" "consistent t y" by auto
  from this [THEN consistent_marker [OF _ assms(1)]] m eq p
  show ?thesis by simp
qed

lemma infoLoop_pairs:
  "infoLoop t table infoVector = Some table' \<Longrightarrow>
     \<exists>pairs. map snd pairs = infoVector \<and> table' = store table pairs
       \<and> (\<forall>p \<in> set pairs. \<exists>marker0 marker1.
             markerOf t (info_orientedReadId (snd p)) (ordinals0 (snd p)) = Some marker0
             \<and> markerOf t (info_orientedReadId (snd p)) (ordinals1 (snd p)) = Some marker1
             \<and> fillSequence t (info_orientedReadId (snd p)) marker0 marker1 = Some (fst p))"
proof (induction infoVector arbitrary: table)
  case Nil
  then show ?case by simp
next
  case (Cons info infoVector)
  from Cons.prems obtain marker0 marker1 s where
    m: "markerOf t (info_orientedReadId info) (ordinals0 info) = Some marker0"
      "markerOf t (info_orientedReadId info) (ordinals1 info) = Some marker1"
      "fillSequence t (info_orientedReadId info) marker0 marker1 = Some s"
    and rest: "infoLoop t (push_back table s info) infoVector = Some table'"
    by (auto split: option.splits)
  from Cons.IH [OF rest] obtain pairs where
    pairs: "map snd pairs = infoVector" "table' = store (push_back table s info) pairs"
      "\<forall>p \<in> set pairs. \<exists>marker0 marker1.
             markerOf t (info_orientedReadId (snd p)) (ordinals0 (snd p)) = Some marker0
             \<and> markerOf t (info_orientedReadId (snd p)) (ordinals1 (snd p)) = Some marker1
             \<and> fillSequence t (info_orientedReadId (snd p)) marker0 marker1 = Some (fst p)"
    by blast
  show ?case
  proof (intro exI [of _ "(s, info) # pairs"] conjI ballI)
    show "map snd ((s, info) # pairs) = info # infoVector" using pairs(1) by simp
    show "table' = store table ((s, info) # pairs)" using pairs(2) by simp
  next
    fix p assume "p \<in> set ((s, info) # pairs)"
    then have "p = (s, info) \<or> p \<in> set pairs" by simp
    then show "\<exists>marker0 marker1.
             markerOf t (info_orientedReadId (snd p)) (ordinals0 (snd p)) = Some marker0
             \<and> markerOf t (info_orientedReadId (snd p)) (ordinals1 (snd p)) = Some marker1
             \<and> fillSequence t (info_orientedReadId (snd p)) marker0 marker1 = Some (fst p)"
    proof
      assume "p = (s, info)"
      with m show ?thesis by simp
    next
      assume "p \<in> set pairs"
      with pairs(3) show ?thesis by blast
    qed
  qed
qed

lemma storeEdgeInfo_table:
  assumes "storeEdgeInfo_infoVector std_sort t e infoVector graph = Some graph'
      \<or> (storeEdgeInfo std_sort t e graph = Some graph' \<and> wf_tables t
          \<and> (\<forall>vertex \<in> set (vertices graph). \<forall>m \<in> set (markerInfos vertex). consistent t m))"
    and sort: "std_sort_contract std_sort OrderPairsBySizeOfSecondGreater"
  shows "\<exists>pairs. mset (infos (edges graph' ! e)) = mset (store [] pairs)
       \<and> (\<forall>p \<in> set pairs. \<exists>marker0 marker1.
             markerOf t (info_orientedReadId (snd p)) (ordinals0 (snd p)) = Some marker0
             \<and> markerOf t (info_orientedReadId (snd p)) (ordinals1 (snd p)) = Some marker1
             \<and> fillSequence t (info_orientedReadId (snd p)) marker0 marker1 = Some (fst p))"
  using assms(1)
proof
  assume run: "storeEdgeInfo_infoVector std_sort t e infoVector graph = Some graph'"
  then obtain edge sequenceTable where e: "at (edges graph) e = Some edge"
    and loop: "infoLoop t [] infoVector = Some sequenceTable"
    and graph': "graph' = graph\<lparr>edges := (edges graph)
         [e := edge\<lparr>infos := std_sort OrderPairsBySizeOfSecondGreater sequenceTable\<rparr>]\<rparr>"
    by (auto simp: storeEdgeInfo_infoVector_def split: option.splits)
  from e have "e < length (edges graph)" by (simp add: at_Some)
  with graph' have "infos (edges graph' ! e)
      = std_sort OrderPairsBySizeOfSecondGreater sequenceTable" by simp
  then have "mset (infos (edges graph' ! e)) = mset sequenceTable"
    by (simp add: std_sort_contract_mset [OF sort])
  with infoLoop_pairs [OF loop] show ?thesis by blast
next
  assume "storeEdgeInfo std_sort t e graph = Some graph' \<and> wf_tables t
          \<and> (\<forall>vertex \<in> set (vertices graph). \<forall>m \<in> set (markerInfos vertex). consistent t m)"
  then have run: "storeEdgeInfo std_sort t e graph = Some graph'" and wf: "wf_tables t"
    and cons: "\<forall>vertex \<in> set (vertices graph). \<forall>m \<in> set (markerInfos vertex). consistent t m"
    by blast+
  from run obtain edge vertex0 vertex1 pairs where e: "at (edges graph) e = Some edge"
    and v: "at (vertices graph) (source edge) = Some vertex0"
      "at (vertices graph) (target edge) = Some vertex1"
    and acc: "accepted t (markerInfos vertex0) (markerInfos vertex1) = Some pairs"
    and graph': "graph' = graph\<lparr>edges := (edges graph)
         [e := edge\<lparr>infos := std_sort OrderPairsBySizeOfSecondGreater (store [] pairs)\<rparr>]\<rparr>"
    by (auto simp: storeEdgeInfo_def scanLoop_accepted split: option.splits)
  from v have "vertex0 \<in> set (vertices graph)" "vertex1 \<in> set (vertices graph)"
    by (auto simp: at_Some)
  with cons have c: "\<forall>m \<in> set (markerInfos vertex0) \<union> set (markerInfos vertex1). consistent t m"
    by blast
  from e have "e < length (edges graph)" by (simp add: at_Some)
  with graph' have "infos (edges graph' ! e)
      = std_sort OrderPairsBySizeOfSecondGreater (store [] pairs)" by simp
  then have "mset (infos (edges graph' ! e)) = mset (store [] pairs)"
    by (simp add: std_sort_contract_mset [OF sort])
  with accepted_fillSequence [OF wf c acc] show ?thesis by blast
qed

lemma storeEdgeInfo_stored:
  assumes "storeEdgeInfo_infoVector std_sort t e infoVector graph = Some graph'
      \<or> (storeEdgeInfo std_sort t e graph = Some graph' \<and> wf_tables t
          \<and> (\<forall>vertex \<in> set (vertices graph). \<forall>m \<in> set (markerInfos vertex). consistent t m))"
    and "std_sort_contract std_sort OrderPairsBySizeOfSecondGreater"
  shows "distinct (map fst (infos (edges graph' ! e)))"
    and "\<forall>g \<in> set (infos (edges graph' ! e)). snd g \<noteq> []"
    and "\<forall>g \<in> set (infos (edges graph' ! e)). \<forall>info \<in> set (snd g). \<exists>marker0 marker1.
           markerOf t (info_orientedReadId info) (ordinals0 info) = Some marker0
           \<and> markerOf t (info_orientedReadId info) (ordinals1 info) = Some marker1
           \<and> fillSequence t (info_orientedReadId info) marker0 marker1 = Some (fst g)"
proof -
  from storeEdgeInfo_table [OF assms] obtain pairs where
    perm: "mset (infos (edges graph' ! e)) = mset (store [] pairs)"
    and pairs: "\<forall>p \<in> set pairs. \<exists>marker0 marker1.
             markerOf t (info_orientedReadId (snd p)) (ordinals0 (snd p)) = Some marker0
             \<and> markerOf t (info_orientedReadId (snd p)) (ordinals1 (snd p)) = Some marker1
             \<and> fillSequence t (info_orientedReadId (snd p)) marker0 marker1 = Some (fst p)"
    by blast
  have "keysSorted []" by (simp add: keysSorted_def)
  then have sorted: "keysSorted (store [] pairs)" by (rule store_keysSorted)
  from perm have set: "set (infos (edges graph' ! e)) = set (store [] pairs)"
    by (rule mset_eq_setD)
  from perm have "mset (map fst (infos (edges graph' ! e))) = mset (map fst (store [] pairs))"
    by (simp only: mset_map)
  from mset_eq_imp_distinct_iff [OF this] keysSorted_distinct(1) [OF sorted]
  show "distinct (map fst (infos (edges graph' ! e)))" by simp
  from keysSorted_distinct(2) [OF sorted] set
  show "\<forall>g \<in> set (infos (edges graph' ! e)). snd g \<noteq> []" by simp
  show "\<forall>g \<in> set (infos (edges graph' ! e)). \<forall>info \<in> set (snd g). \<exists>marker0 marker1.
           markerOf t (info_orientedReadId info) (ordinals0 info) = Some marker0
           \<and> markerOf t (info_orientedReadId info) (ordinals1 info) = Some marker1
           \<and> fillSequence t (info_orientedReadId info) marker0 marker1 = Some (fst g)"
  proof (intro ballI)
    fix g info assume "g \<in> set (infos (edges graph' ! e))" and i: "info \<in> set (snd g)"
    with set have "g \<in> set (store [] pairs)" by simp
    from store_groups [OF this i] have "(fst g, info) \<in> set pairs" by simp
    with pairs show "\<exists>marker0 marker1.
           markerOf t (info_orientedReadId info) (ordinals0 info) = Some marker0
           \<and> markerOf t (info_orientedReadId info) (ordinals1 info) = Some marker1
           \<and> fillSequence t (info_orientedReadId info) marker0 marker1 = Some (fst g)"
      by fastforce
  qed
qed

lemma example_strands_tables:
  "wf_tables strandsTables"
  "wf_tables (strandsTables\<lparr>k := 3\<rparr>)"
  "\<forall>vertex \<in> set (vertices strandsGraph). \<forall>m \<in> set (markerInfos vertex).
     consistent strandsTables m"
  "\<forall>vertex \<in> set (vertices strandsGraph). \<forall>m \<in> set (markerInfos vertex).
     consistent (strandsTables\<lparr>k := 3\<rparr>) m"
  by (simp_all add: wf_tables_def strandsGraph_def consistent_def findMarkerId_def strandsTables_def)

lemma example_strands_reverse:
  "map_option (\<lambda>graph. infos (edges graph ! 1)) (storeEdgeInfo insertionSort strandsTables 1 strandsGraph)
   = Some [(\<lparr>overlappingBaseCount = 0, sequence = []\<rparr>,
            [\<lparr>info_orientedReadId = 3, ordinals0 = 0, ordinals1 = 1\<rparr>]),
           (\<lparr>overlappingBaseCount = 0, sequence = [BaseG, BaseT]\<rparr>,
            [\<lparr>info_orientedReadId = 1, ordinals0 = 0, ordinals1 = 2\<rparr>])]"
  by code_simp

lemma example_strands_overlap:
  "map_option (\<lambda>graph. infos (edges graph ! 0))
     (storeEdgeInfo insertionSort (strandsTables\<lparr>k := 3\<rparr>) 0 strandsGraph)
   = Some [(\<lparr>overlappingBaseCount = 0, sequence = [BaseC]\<rparr>,
            [\<lparr>info_orientedReadId = 0, ordinals0 = 0, ordinals1 = 2\<rparr>]),
           (\<lparr>overlappingBaseCount = 1, sequence = []\<rparr>,
            [\<lparr>info_orientedReadId = 2, ordinals0 = 0, ordinals1 = 1\<rparr>])]"
  by code_simp

lemma example_strands_markers:
  "markerOf strandsTables 1 0 = Some \<lparr>kmerId = 0, position = 0\<rparr>"
  "markerOf strandsTables 1 2 = Some \<lparr>kmerId = 5, position = 4\<rparr>"
  "markerOf strandsTables 3 0 = Some \<lparr>kmerId = 0, position = 0\<rparr>"
  "markerOf strandsTables 3 1 = Some \<lparr>kmerId = 5, position = 2\<rparr>"
  "markerOf (strandsTables\<lparr>k := 3\<rparr>) 2 0 = Some \<lparr>kmerId = 10, position = 0\<rparr>"
  "markerOf (strandsTables\<lparr>k := 3\<rparr>) 2 1 = Some \<lparr>kmerId = 15, position = 2\<rparr>"
  by code_simp+

text \<open>
  C4: let either overload of \<open>storeEdgeInfo\<close> have stored the observations of an edge, the
  first overload from marker lists as \<open>addVertex\<close> builds them. For an observation stored
  whose two markers neither overlap nor abut, the sequence under which it is stored has no
  overlap count and is the run of bases at the positions from \<open>marker0.position + k\<close> up
  to, and excluding, \<open>marker1.position\<close>: the base of the stored read at that position on
  strand 0, the complement of the base at \<open>readLength - 1 - position\<close> on strand 1. For a
  read shorter than \<open>2 ^ 32\<close> this is that range of the read or of its reverse complement.
\<close>

theorem insertion_sequence:
  assumes "storeEdgeInfo_infoVector std_sort t e infoVector graph = Some graph'
      \<or> (storeEdgeInfo std_sort t e graph = Some graph' \<and> wf_tables t
          \<and> (\<forall>vertex \<in> set (vertices graph). \<forall>m \<in> set (markerInfos vertex). consistent t m))"
    and "std_sort_contract std_sort OrderPairsBySizeOfSecondGreater"
    and "grp \<in> set (infos (edges graph' ! e))" and "info \<in> set (snd grp)"
    and "markerOf t (info_orientedReadId info) (ordinals0 info) = Some marker0"
    and "markerOf t (info_orientedReadId info) (ordinals1 info) = Some marker1"
    and "position marker0 + k t < position marker1"
  shows "\<exists>read. at (reads t) (getReadId (info_orientedReadId info)) = Some read
      \<and> overlappingBaseCount (fst grp) = 0
      \<and> sequence (fst grp) =
          map (\<lambda>p. if getStrand (info_orientedReadId info) = 0 then read ! p
                    else complement
                      (read ! unat (word_of_nat (length read) - 1 - word_of_nat p :: 32 word)))
            [unat (position marker0 + k t)..<unat (position marker1)]
      \<and> (length read < 2 ^ 32 \<longrightarrow>
           sequence (fst grp) =
             take (unat (position marker1) - unat (position marker0 + k t))
               (drop (unat (position marker0 + k t))
                  (if getStrand (info_orientedReadId info) = 0 then read
                   else map complement (rev read))))"
proof -
  from storeEdgeInfo_stored(3) [OF assms(1,2)] assms(3,4) obtain m0 m1 where
    "markerOf t (info_orientedReadId info) (ordinals0 info) = Some m0"
    "markerOf t (info_orientedReadId info) (ordinals1 info) = Some m1"
    "fillSequence t (info_orientedReadId info) m0 m1 = Some (fst grp)"
    by blast
  with assms(5,6)
  have "fillSequence t (info_orientedReadId info) marker0 marker1 = Some (fst grp)" by simp
  from fillSequence_insertion [OF this assms(7)] show ?thesis .
qed

text \<open>
  On the edge between the vertices of strand 1 the first read is stored under GT, the
  reverse complement of the bases AC between its markers.
\<close>

theorem insertion_sequence_witness:
  "\<exists>graph'. storeEdgeInfo insertionSort strandsTables 1 strandsGraph = Some graph'
     \<and> infos (edges graph' ! 1)
         = [(\<lparr>overlappingBaseCount = 0, sequence = []\<rparr>,
             [\<lparr>info_orientedReadId = 3, ordinals0 = 0, ordinals1 = 1\<rparr>]),
            (\<lparr>overlappingBaseCount = 0, sequence = [BaseG, BaseT]\<rparr>,
             [\<lparr>info_orientedReadId = 1, ordinals0 = 0, ordinals1 = 2\<rparr>])]
     \<and> markerOf strandsTables 1 0 = Some \<lparr>kmerId = 0, position = 0\<rparr>
     \<and> markerOf strandsTables 1 2 = Some \<lparr>kmerId = 5, position = 4\<rparr>
     \<and> position \<lparr>kmerId = 0, position = 0\<rparr> + k strandsTables
         < position \<lparr>kmerId = 5, position = 4\<rparr>
     \<and> [BaseG, BaseT] = take 2 (drop 2 (map complement
           (rev [BaseG, BaseG, BaseA, BaseC, BaseT, BaseT])))"
proof -
  let ?info = "\<lparr>info_orientedReadId = 1, ordinals0 = 0, ordinals1 = 2\<rparr>"
  let ?grp = "(\<lparr>overlappingBaseCount = 0, sequence = [BaseG, BaseT]\<rparr>, [?info])"
  from example_strands_reverse obtain graph' where
    run: "storeEdgeInfo insertionSort strandsTables 1 strandsGraph = Some graph'"
    and infos: "infos (edges graph' ! 1)
         = [(\<lparr>overlappingBaseCount = 0, sequence = []\<rparr>,
             [\<lparr>info_orientedReadId = 3, ordinals0 = 0, ordinals1 = 1\<rparr>]), ?grp]"
    by auto
  from run example_strands_tables(1,3)
  have stored: "storeEdgeInfo_infoVector insertionSort strandsTables 1 [] strandsGraph = Some graph'
      \<or> (storeEdgeInfo insertionSort strandsTables 1 strandsGraph = Some graph'
          \<and> wf_tables strandsTables
          \<and> (\<forall>vertex \<in> set (vertices strandsGraph). \<forall>m \<in> set (markerInfos vertex).
                consistent strandsTables m))"
    by (intro disjI2 conjI)
  have grp: "?grp \<in> set (infos (edges graph' ! 1))" using infos by simp
  have info: "?info \<in> set (snd ?grp)" by simp
  have m: "markerOf strandsTables (info_orientedReadId ?info) (ordinals0 ?info)
        = Some \<lparr>kmerId = 0, position = 0\<rparr>"
      "markerOf strandsTables (info_orientedReadId ?info) (ordinals1 ?info)
        = Some \<lparr>kmerId = 5, position = 4\<rparr>"
    using example_strands_markers(1,2) by simp_all
  have lt: "position \<lparr>kmerId = 0, position = 0\<rparr> + k strandsTables
         < position \<lparr>kmerId = 5, position = 4\<rparr>"
    by (simp add: strandsTables_def)
  from insertion_sequence [OF stored insertionSort_contract(1) grp info m lt]
  have "[BaseG, BaseT] = take 2 (drop 2 (map complement
           (rev [BaseG, BaseG, BaseA, BaseC, BaseT, BaseT])))"
    by (simp add: strandsTables_def at_def getReadId_def getStrand_def)
  with run infos example_strands_markers(1,2) lt show ?thesis by blast
qed

text \<open>
  C5, as amended: for an observation stored by either overload of \<open>storeEdgeInfo\<close> whose
  two markers overlap or abut, the sequence under which it is stored has no bases and its
  \<open>overlappingBaseCount\<close> is \<open>marker0.position + k - marker1.position\<close> reduced modulo 256 by
  the conversion to 8 bits; it is that difference itself when the difference is at most
  255.
\<close>

theorem overlappingBaseCount_mod_256:
  assumes "storeEdgeInfo_infoVector std_sort t e infoVector graph = Some graph'
      \<or> (storeEdgeInfo std_sort t e graph = Some graph' \<and> wf_tables t
          \<and> (\<forall>vertex \<in> set (vertices graph). \<forall>m \<in> set (markerInfos vertex). consistent t m))"
    and "std_sort_contract std_sort OrderPairsBySizeOfSecondGreater"
    and "grp \<in> set (infos (edges graph' ! e))" and "info \<in> set (snd grp)"
    and "markerOf t (info_orientedReadId info) (ordinals0 info) = Some marker0"
    and "markerOf t (info_orientedReadId info) (ordinals1 info) = Some marker1"
    and "position marker1 \<le> position marker0 + k t"
  shows "sequence (fst grp) = []
      \<and> unat (overlappingBaseCount (fst grp))
          = unat (position marker0 + k t - position marker1) mod 256
      \<and> (unat (position marker0 + k t - position marker1) \<le> 255 \<longrightarrow>
           unat (overlappingBaseCount (fst grp))
             = unat (position marker0 + k t - position marker1))"
proof -
  from storeEdgeInfo_stored(3) [OF assms(1,2)] assms(3,4) obtain m0 m1 where
    "markerOf t (info_orientedReadId info) (ordinals0 info) = Some m0"
    "markerOf t (info_orientedReadId info) (ordinals1 info) = Some m1"
    "fillSequence t (info_orientedReadId info) m0 m1 = Some (fst grp)"
    by blast
  with assms(5,6)
  have "fillSequence t (info_orientedReadId info) marker0 marker1 = Some (fst grp)" by simp
  with fillSequence_overlap [OF assms(7), of "info_orientedReadId info"] show ?thesis by simp
qed

text \<open>
  With markers of length 3 the markers of the second read overlap by one base.
\<close>

theorem overlappingBaseCount_mod_256_witness:
  "\<exists>graph'. storeEdgeInfo insertionSort (strandsTables\<lparr>k := 3\<rparr>) 0 strandsGraph = Some graph'
     \<and> infos (edges graph' ! 0)
         = [(\<lparr>overlappingBaseCount = 0, sequence = [BaseC]\<rparr>,
             [\<lparr>info_orientedReadId = 0, ordinals0 = 0, ordinals1 = 2\<rparr>]),
            (\<lparr>overlappingBaseCount = 1, sequence = []\<rparr>,
             [\<lparr>info_orientedReadId = 2, ordinals0 = 0, ordinals1 = 1\<rparr>])]
     \<and> markerOf (strandsTables\<lparr>k := 3\<rparr>) 2 0 = Some \<lparr>kmerId = 10, position = 0\<rparr>
     \<and> markerOf (strandsTables\<lparr>k := 3\<rparr>) 2 1 = Some \<lparr>kmerId = 15, position = 2\<rparr>
     \<and> position \<lparr>kmerId = 15, position = 2\<rparr>
         \<le> position \<lparr>kmerId = 10, position = 0\<rparr> + k (strandsTables\<lparr>k := 3\<rparr>)
     \<and> unat (1 :: 8 word)
         = unat (position \<lparr>kmerId = 10, position = 0\<rparr> + k (strandsTables\<lparr>k := 3\<rparr>)
             - position \<lparr>kmerId = 15, position = 2\<rparr>) mod 256"
proof -
  let ?t = "strandsTables\<lparr>k := 3\<rparr>"
  let ?info = "\<lparr>info_orientedReadId = 2, ordinals0 = 0, ordinals1 = 1\<rparr>"
  let ?grp = "(\<lparr>overlappingBaseCount = 1, sequence = []\<rparr>, [?info])"
  from example_strands_overlap obtain graph' where
    run: "storeEdgeInfo insertionSort ?t 0 strandsGraph = Some graph'"
    and infos: "infos (edges graph' ! 0)
         = [(\<lparr>overlappingBaseCount = 0, sequence = [BaseC]\<rparr>,
             [\<lparr>info_orientedReadId = 0, ordinals0 = 0, ordinals1 = 2\<rparr>]), ?grp]"
    by auto
  from run example_strands_tables(2,4)
  have stored: "storeEdgeInfo_infoVector insertionSort ?t 0 [] strandsGraph = Some graph'
      \<or> (storeEdgeInfo insertionSort ?t 0 strandsGraph = Some graph'
          \<and> wf_tables ?t
          \<and> (\<forall>vertex \<in> set (vertices strandsGraph). \<forall>m \<in> set (markerInfos vertex).
                consistent ?t m))"
    by (intro disjI2 conjI)
  have grp: "?grp \<in> set (infos (edges graph' ! 0))" using infos by simp
  have info: "?info \<in> set (snd ?grp)" by simp
  have m: "markerOf ?t (info_orientedReadId ?info) (ordinals0 ?info)
        = Some \<lparr>kmerId = 10, position = 0\<rparr>"
      "markerOf ?t (info_orientedReadId ?info) (ordinals1 ?info)
        = Some \<lparr>kmerId = 15, position = 2\<rparr>"
    using example_strands_markers(5,6) by simp_all
  have le: "position \<lparr>kmerId = 15, position = 2\<rparr>
         \<le> position \<lparr>kmerId = 10, position = 0\<rparr> + k ?t"
    by (simp add: strandsTables_def)
  from overlappingBaseCount_mod_256 [OF stored insertionSort_contract(1) grp info m le]
  have "unat (1 :: 8 word)
         = unat (position \<lparr>kmerId = 10, position = 0\<rparr> + k ?t
             - position \<lparr>kmerId = 15, position = 2\<rparr>) mod 256"
    by simp
  with run infos example_strands_markers(5,6) le show ?thesis by blast
qed

text \<open>
  With \<open>k = 300\<close> the markers of the second read, at the positions 0 and 2, overlap by 298
  bases. The observation is stored under the count 42, not under the clamped value 255.
\<close>

theorem overlappingBaseCount_not_clamped:
  "map_option (\<lambda>graph. infos (edges graph ! 0))
     (storeEdgeInfo insertionSort (strandsTables\<lparr>k := 300\<rparr>) 0 strandsGraph)
   = Some [(\<lparr>overlappingBaseCount = 40, sequence = []\<rparr>,
            [\<lparr>info_orientedReadId = 0, ordinals0 = 0, ordinals1 = 2\<rparr>]),
           (\<lparr>overlappingBaseCount = 42, sequence = []\<rparr>,
            [\<lparr>info_orientedReadId = 2, ordinals0 = 0, ordinals1 = 1\<rparr>])]
   \<and> markerOf (strandsTables\<lparr>k := 300\<rparr>) 2 0 = Some \<lparr>kmerId = 10, position = 0\<rparr>
   \<and> markerOf (strandsTables\<lparr>k := 300\<rparr>) 2 1 = Some \<lparr>kmerId = 15, position = 2\<rparr>
   \<and> position \<lparr>kmerId = 15, position = 2\<rparr>
       \<le> position \<lparr>kmerId = 10, position = 0\<rparr> + k (strandsTables\<lparr>k := 300\<rparr>)
   \<and> unat (position \<lparr>kmerId = 10, position = 0\<rparr> + k (strandsTables\<lparr>k := 300\<rparr>)
        - position \<lparr>kmerId = 15, position = 2\<rparr>) = 298
   \<and> unat (42 :: 8 word) \<noteq> min 255 298"
proof -
  have "map_option (\<lambda>graph. infos (edges graph ! 0))
     (storeEdgeInfo insertionSort (strandsTables\<lparr>k := 300\<rparr>) 0 strandsGraph)
   = Some [(\<lparr>overlappingBaseCount = 40, sequence = []\<rparr>,
            [\<lparr>info_orientedReadId = 0, ordinals0 = 0, ordinals1 = 2\<rparr>]),
           (\<lparr>overlappingBaseCount = 42, sequence = []\<rparr>,
            [\<lparr>info_orientedReadId = 2, ordinals0 = 0, ordinals1 = 1\<rparr>])]"
    by code_simp
  moreover have "markerOf (strandsTables\<lparr>k := 300\<rparr>) 2 0 = Some \<lparr>kmerId = 10, position = 0\<rparr>"
    "markerOf (strandsTables\<lparr>k := 300\<rparr>) 2 1 = Some \<lparr>kmerId = 15, position = 2\<rparr>"
    by code_simp+
  ultimately show ?thesis by (simp add: strandsTables_def)
qed

lemma example_strands_forward:
  "map_option (\<lambda>graph. infos (edges graph ! 0)) (storeEdgeInfo insertionSort strandsTables 0 strandsGraph)
   = Some [(\<lparr>overlappingBaseCount = 0, sequence = []\<rparr>,
            [\<lparr>info_orientedReadId = 2, ordinals0 = 0, ordinals1 = 1\<rparr>]),
           (\<lparr>overlappingBaseCount = 0, sequence = [BaseA, BaseC]\<rparr>,
            [\<lparr>info_orientedReadId = 0, ordinals0 = 0, ordinals1 = 2\<rparr>])]"
  by code_simp

text \<open>
  C7: after either overload of \<open>storeEdgeInfo\<close> the groups of the edge have pairwise
  different sequences, each group holds an observation, and each sequence either has no
  bases or has bases and the overlap count 0. An observation is stored under a sequence
  without bases exactly when its markers overlap or abut, and under the count 0 without
  bases when they abut; an observation with bases between its markers is stored in another
  group, under another sequence and another key of the sequence table, than every
  observation whose markers abut.
\<close>

theorem Sequence_representations:
  assumes "storeEdgeInfo_infoVector std_sort t e infoVector graph = Some graph'
      \<or> (storeEdgeInfo std_sort t e graph = Some graph' \<and> wf_tables t
          \<and> (\<forall>vertex \<in> set (vertices graph). \<forall>m \<in> set (markerInfos vertex). consistent t m))"
    and "std_sort_contract std_sort OrderPairsBySizeOfSecondGreater"
  shows "distinct (map fst (infos (edges graph' ! e)))
     \<and> (\<forall>grp \<in> set (infos (edges graph' ! e)).
          snd grp \<noteq> []
          \<and> (sequence (fst grp) = []
               \<or> (sequence (fst grp) \<noteq> [] \<and> overlappingBaseCount (fst grp) = 0)))
     \<and> (\<forall>grp \<in> set (infos (edges graph' ! e)). \<forall>info \<in> set (snd grp).
          \<exists>marker0 marker1.
            markerOf t (info_orientedReadId info) (ordinals0 info) = Some marker0
            \<and> markerOf t (info_orientedReadId info) (ordinals1 info) = Some marker1
            \<and> (sequence (fst grp) = [] \<longleftrightarrow> position marker1 \<le> position marker0 + k t)
            \<and> (position marker1 = position marker0 + k t \<longrightarrow>
                  fst grp = \<lparr>overlappingBaseCount = 0, sequence = []\<rparr>)
            \<and> (position marker0 + k t < position marker1 \<longrightarrow>
                  overlappingBaseCount (fst grp) = 0
                  \<and> (\<forall>grp' \<in> set (infos (edges graph' ! e)). \<forall>info' \<in> set (snd grp').
                       \<forall>marker0' marker1'.
                         markerOf t (info_orientedReadId info') (ordinals0 info') = Some marker0'
                         \<and> markerOf t (info_orientedReadId info') (ordinals1 info') = Some marker1'
                         \<and> position marker1' = position marker0' + k t
                         \<longrightarrow> grp' \<noteq> grp \<and> fst grp' \<noteq> fst grp
                             \<and> Sequence_key (fst grp') < Sequence_key (fst grp))))"
proof -
  note stored = storeEdgeInfo_stored [OF assms]
  have rep: "\<exists>marker0 marker1.
            markerOf t (info_orientedReadId info) (ordinals0 info) = Some marker0
            \<and> markerOf t (info_orientedReadId info) (ordinals1 info) = Some marker1
            \<and> fillSequence t (info_orientedReadId info) marker0 marker1 = Some (fst grp)"
    if "grp \<in> set (infos (edges graph' ! e))" "info \<in> set (snd grp)" for grp info
    using stored(3) that by blast
  have two: "snd grp \<noteq> [] \<and> (sequence (fst grp) = []
               \<or> (sequence (fst grp) \<noteq> [] \<and> overlappingBaseCount (fst grp) = 0))"
    if grp: "grp \<in> set (infos (edges graph' ! e))" for grp
  proof -
    from stored(2) grp have ne: "snd grp \<noteq> []" by blast
    then obtain info where "info \<in> set (snd grp)" by (cases "snd grp") auto
    from rep [OF grp this] obtain marker0 marker1 where
      "fillSequence t (info_orientedReadId info) marker0 marker1 = Some (fst grp)" by blast
    from fillSequence_representations [OF this] ne show ?thesis by blast
  qed
  have each: "\<exists>marker0 marker1.
            markerOf t (info_orientedReadId info) (ordinals0 info) = Some marker0
            \<and> markerOf t (info_orientedReadId info) (ordinals1 info) = Some marker1
            \<and> (sequence (fst grp) = [] \<longleftrightarrow> position marker1 \<le> position marker0 + k t)
            \<and> (position marker1 = position marker0 + k t \<longrightarrow>
                  fst grp = \<lparr>overlappingBaseCount = 0, sequence = []\<rparr>)
            \<and> (position marker0 + k t < position marker1 \<longrightarrow>
                  overlappingBaseCount (fst grp) = 0
                  \<and> (\<forall>grp' \<in> set (infos (edges graph' ! e)). \<forall>info' \<in> set (snd grp').
                       \<forall>marker0' marker1'.
                         markerOf t (info_orientedReadId info') (ordinals0 info') = Some marker0'
                         \<and> markerOf t (info_orientedReadId info') (ordinals1 info') = Some marker1'
                         \<and> position marker1' = position marker0' + k t
                         \<longrightarrow> grp' \<noteq> grp \<and> fst grp' \<noteq> fst grp
                             \<and> Sequence_key (fst grp') < Sequence_key (fst grp)))"
    if grp: "grp \<in> set (infos (edges graph' ! e))" and info: "info \<in> set (snd grp)"
    for grp info
  proof -
    from rep [OF grp info] obtain marker0 marker1 where
      m: "markerOf t (info_orientedReadId info) (ordinals0 info) = Some marker0"
        "markerOf t (info_orientedReadId info) (ordinals1 info) = Some marker1"
      and fill: "fillSequence t (info_orientedReadId info) marker0 marker1 = Some (fst grp)"
      by blast
    note here = fillSequence_representations [OF fill]
    from here have a: "sequence (fst grp) = [] \<longleftrightarrow> position marker1 \<le> position marker0 + k t"
      by auto
    from here have b: "position marker1 = position marker0 + k t \<longrightarrow>
                  fst grp = \<lparr>overlappingBaseCount = 0, sequence = []\<rparr>" by blast
    have c: "overlappingBaseCount (fst grp) = 0
        \<and> (\<forall>grp' \<in> set (infos (edges graph' ! e)). \<forall>info' \<in> set (snd grp').
             \<forall>marker0' marker1'.
               markerOf t (info_orientedReadId info') (ordinals0 info') = Some marker0'
               \<and> markerOf t (info_orientedReadId info') (ordinals1 info') = Some marker1'
               \<and> position marker1' = position marker0' + k t
               \<longrightarrow> grp' \<noteq> grp \<and> fst grp' \<noteq> fst grp
                   \<and> Sequence_key (fst grp') < Sequence_key (fst grp))"
      if lt: "position marker0 + k t < position marker1"
    proof (intro conjI ballI allI impI)
      from here lt show "overlappingBaseCount (fst grp) = 0" by auto
    next
      fix grp' info' marker0' marker1'
      assume grp': "grp' \<in> set (infos (edges graph' ! e))" and info': "info' \<in> set (snd grp')"
        and m': "markerOf t (info_orientedReadId info') (ordinals0 info') = Some marker0'
               \<and> markerOf t (info_orientedReadId info') (ordinals1 info') = Some marker1'
               \<and> position marker1' = position marker0' + k t"
      from rep [OF grp' info'] m'
      have "fillSequence t (info_orientedReadId info') marker0' marker1' = Some (fst grp')"
        by auto
      from fillSequence_representations [OF this] m' fill lt
      have "fst grp' \<noteq> fst grp \<and> Sequence_key (fst grp') < Sequence_key (fst grp)"
        by blast
      then show "grp' \<noteq> grp" "fst grp' \<noteq> fst grp"
        "Sequence_key (fst grp') < Sequence_key (fst grp)" by auto
    qed
    from m a b c show ?thesis by blast
  qed
  from stored(1) two each show ?thesis by blast
qed

text \<open>
  On the edge between the vertices of strand 0 the second read, whose markers abut, and
  the first read, with the bases AC between its markers, are stored in two groups.
\<close>

theorem Sequence_representations_witness:
  "\<exists>graph'. storeEdgeInfo insertionSort strandsTables 0 strandsGraph = Some graph'
     \<and> infos (edges graph' ! 0)
         = [(\<lparr>overlappingBaseCount = 0, sequence = []\<rparr>,
             [\<lparr>info_orientedReadId = 2, ordinals0 = 0, ordinals1 = 1\<rparr>]),
            (\<lparr>overlappingBaseCount = 0, sequence = [BaseA, BaseC]\<rparr>,
             [\<lparr>info_orientedReadId = 0, ordinals0 = 0, ordinals1 = 2\<rparr>])]
     \<and> distinct (map fst (infos (edges graph' ! 0)))
     \<and> Sequence_key \<lparr>overlappingBaseCount = 0, sequence = []\<rparr>
         < Sequence_key \<lparr>overlappingBaseCount = 0, sequence = [BaseA, BaseC]\<rparr>
     \<and> wf_tables strandsTables"
proof -
  from example_strands_forward obtain graph' where
    run: "storeEdgeInfo insertionSort strandsTables 0 strandsGraph = Some graph'"
    and infos: "infos (edges graph' ! 0)
         = [(\<lparr>overlappingBaseCount = 0, sequence = []\<rparr>,
             [\<lparr>info_orientedReadId = 2, ordinals0 = 0, ordinals1 = 1\<rparr>]),
            (\<lparr>overlappingBaseCount = 0, sequence = [BaseA, BaseC]\<rparr>,
             [\<lparr>info_orientedReadId = 0, ordinals0 = 0, ordinals1 = 2\<rparr>])]"
    by auto
  from run example_strands_tables(1,3)
  have stored: "storeEdgeInfo_infoVector insertionSort strandsTables 0 [] strandsGraph = Some graph'
      \<or> (storeEdgeInfo insertionSort strandsTables 0 strandsGraph = Some graph'
          \<and> wf_tables strandsTables
          \<and> (\<forall>vertex \<in> set (vertices strandsGraph). \<forall>m \<in> set (markerInfos vertex).
                consistent strandsTables m))"
    by (intro disjI2 conjI)
  from Sequence_representations [OF stored insertionSort_contract(1)]
  have "distinct (map fst (infos (edges graph' ! 0)))" by (rule conjunct1)
  moreover have "Sequence_key \<lparr>overlappingBaseCount = 0, sequence = []\<rparr>
         < Sequence_key \<lparr>overlappingBaseCount = 0, sequence = [BaseA, BaseC]\<rparr>"
    by (simp add: Sequence_key_def)
  ultimately show ?thesis using run infos example_strands_tables(1) by blast
qed

subsection \<open>Vertices\<close>

text \<open>
  C9: \<open>addVertex\<close> with a vertex id that is present fails its assertion. When \<open>addVertex\<close>
  succeeds, the vertex id was not present, and \<open>findVertex\<close> on the new graph returns
  \<open>true\<close> with the descriptor that \<open>addVertex\<close> returned, which is the descriptor of a vertex
  with this id. \<open>findVertex\<close> returns nothing but this pair.
\<close>

theorem addVertex_findVertex:
  "(vertexMap graph vid \<noteq> None \<longrightarrow>
      addVertex t vid dist vertexMarkers graph = Inl AssertionFailed)
   \<and> (addVertex t vid dist vertexMarkers graph = Inr (v, graph') \<longrightarrow>
        vertexMap graph vid = None
        \<and> findVertex graph' vid = (True, Some v)
        \<and> v < length (vertices graph')
        \<and> vertexId (vertices graph' ! v) = vid)"
  by (auto simp: addVertex_def findVertex_def Let_def split: option.splits if_splits)

lemma example_addVertex:
  "addVertex exampleTables 7 0 [1, 4] emptyGraph = Inr (0, oneVertexGraph)"
  by (simp add: addVertex_def emptyGraph_def oneVertexGraph_def exampleTables_def
      findMarkerId_def)

theorem addVertex_findVertex_witness:
  "vertexMap oneVertexGraph 7 \<noteq> None
   \<and> addVertex exampleTables 7 3 [] oneVertexGraph = Inl AssertionFailed
   \<and> addVertex exampleTables 7 0 [1, 4] emptyGraph = Inr (0, oneVertexGraph)
   \<and> findVertex oneVertexGraph 7 = (True, Some 0)"
proof -
  have present: "vertexMap oneVertexGraph 7 \<noteq> None"
    by (simp add: oneVertexGraph_def)
  from addVertex_findVertex [of oneVertexGraph 7 exampleTables 3 "[]"] present
  have "addVertex exampleTables 7 3 [] oneVertexGraph = Inl AssertionFailed" by blast
  moreover from addVertex_findVertex [of emptyGraph 7 exampleTables 0 "[1, 4]" 0 oneVertexGraph]
    example_addVertex
  have "findVertex oneVertexGraph 7 = (True, Some 0)" by blast
  ultimately show ?thesis using present example_addVertex by blast
qed

subsection \<open>The optimal spanning tree\<close>

lemma walk_append:
  "walk es u (xs @ ys) v \<longleftrightarrow> (\<exists>w. walk es u xs w \<and> walk es w ys v)"
  by (induction xs arbitrary: u) auto

lemma walk_rev:
  "walk es u steps v \<Longrightarrow> walk es v (rev (map (\<lambda>step. (fst step, \<not> snd step)) steps)) u"
  by (induction steps arbitrary: u) (auto simp: walk_append split: if_splits)

lemma spanningTreeWalk_Nil [simp]: "spanningTreeWalk es u [] v \<longleftrightarrow> u = v"
  by (simp add: spanningTreeWalk_def)

lemma spanningTreeWalk_append:
  "spanningTreeWalk es u (xs @ ys) v \<longleftrightarrow>
     (\<exists>w. spanningTreeWalk es u xs w \<and> spanningTreeWalk es w ys v)"
  by (auto simp: spanningTreeWalk_def walk_append)

lemma spanningTreeWalk_rev:
  "spanningTreeWalk es u steps v \<Longrightarrow>
     spanningTreeWalk es v (rev (map (\<lambda>step. (fst step, \<not> snd step)) steps)) u"
  by (auto simp: spanningTreeWalk_def dest: walk_rev)

lemma walk_labels:
  assumes "walk es u steps v"
    and "\<And>step. step \<in> set steps \<Longrightarrow> fst step < length es \<Longrightarrow>
       label (source (es ! fst step)) = label (target (es ! fst step))"
  shows "label u = label v"
  using assms
proof (induction steps arbitrary: u)
  case Nil
  then show ?case by simp
next
  case (Cons step steps)
  from Cons.prems(1) have lt: "fst step < length es" by simp
  from Cons.prems(2) [of step] lt
  have eq: "label (source (es ! fst step)) = label (target (es ! fst step))" by simp
  show ?case
  proof (cases "snd step")
    case True
    with Cons.prems(1) have "source (es ! fst step) = u"
      and "walk es (target (es ! fst step)) steps v" by simp_all
    with Cons.IH [of "target (es ! fst step)"] Cons.prems(2) eq show ?thesis by auto
  next
    case False
    with Cons.prems(1) have "target (es ! fst step) = u"
      and "walk es (source (es ! fst step)) steps v" by simp_all
    with Cons.IH [of "source (es ! fst step)"] Cons.prems(2) eq show ?thesis by auto
  qed
qed

lemma walk_cong:
  assumes "walk es u steps v"
    and "length es' = length es"
    and "\<And>step. step \<in> set steps \<Longrightarrow> fst step < length es \<Longrightarrow>
       source (es' ! fst step) = source (es ! fst step)
       \<and> target (es' ! fst step) = target (es ! fst step)"
  shows "walk es' u steps v"
  using assms
proof (induction steps arbitrary: u)
  case Nil
  then show ?case by simp
next
  case (Cons step steps)
  from Cons.prems(1) have lt: "fst step < length es" by simp
  from Cons.prems(3) [of step] lt
  have eq: "source (es' ! fst step) = source (es ! fst step)"
    "target (es' ! fst step) = target (es ! fst step)" by simp_all
  from Cons.prems(1) have rest: "walk es (if snd step then target (es ! fst step)
     else source (es ! fst step)) steps v" by (simp split: if_splits)
  have "walk es' (if snd step then target (es ! fst step)
     else source (es ! fst step)) steps v"
    by (rule Cons.IH [OF rest Cons.prems(2)]) (use Cons.prems(3) in auto)
  with Cons.prems(1) eq lt Cons.prems(2) show ?case by (auto split: if_splits)
qed

lemma clearFlags_length [simp]: "length (clearFlags es) = length es"
  by (simp add: clearFlags_def)

lemma clearFlags_nth:
  "e < length es \<Longrightarrow> clearFlags es ! e = (es ! e)\<lparr>isSpanningTreeEdge := False\<rparr>"
  by (simp add: clearFlags_def)

lemma clearFlags_eq_source_target:
  assumes "clearFlags es = es0" and "e < length es0"
  shows "source (es ! e) = source (es0 ! e)" and "target (es ! e) = target (es0 ! e)"
    and "infos (es ! e) = infos (es0 ! e)"
    and "isSpanningTreeBestPathEdge (es ! e) = isSpanningTreeBestPathEdge (es0 ! e)"
proof -
  from assms have "e < length es" by auto
  from clearFlags_nth [OF this] assms(1)
  have "es0 ! e = (es ! e)\<lparr>isSpanningTreeEdge := False\<rparr>" by simp
  then show "source (es ! e) = source (es0 ! e)" and "target (es ! e) = target (es0 ! e)"
    and "infos (es ! e) = infos (es0 ! e)"
    and "isSpanningTreeBestPathEdge (es ! e) = isSpanningTreeBestPathEdge (es0 ! e)"
    by simp_all
qed

lemma clearFlags_update:
  "clearFlags (es[e := (es ! e)\<lparr>isSpanningTreeEdge := b\<rparr>]) = clearFlags es"
  by (cases "e < length es")
    (simp_all add: clearFlags_def map_update list_update_same_conv list_update_beyond)

lemma spanningTreeWalk_mono:
  assumes "spanningTreeWalk es u steps v"
  shows "spanningTreeWalk (es[e := (es ! e)\<lparr>isSpanningTreeEdge := True\<rparr>]) u steps v"
proof -
  let ?es' = "es[e := (es ! e)\<lparr>isSpanningTreeEdge := True\<rparr>]"
  have nth: "source (?es' ! i) = source (es ! i) \<and> target (?es' ! i) = target (es ! i)
      \<and> (isSpanningTreeEdge (es ! i) \<longrightarrow> isSpanningTreeEdge (?es' ! i))" if "i < length es" for i
    using that by (cases "i = e") simp_all
  from assms have w: "walk es u steps v"
    and f: "\<forall>step \<in> set steps. isSpanningTreeEdge (es ! fst step)"
    by (simp_all add: spanningTreeWalk_def)
  have "walk ?es' u steps v"
    by (rule walk_cong [OF w]) (use nth in auto)
  moreover have "\<forall>step \<in> set steps. isSpanningTreeEdge (?es' ! fst step)"
  proof
    fix step assume "step \<in> set steps"
    with f show "isSpanningTreeEdge (?es' ! fst step)"
      by (cases "fst step = e"; cases "e < length es") (auto simp: list_update_beyond)
  qed
  ultimately show ?thesis by (simp add: spanningTreeWalk_def)
qed

lemma spanningTreeWalk_antimono:
  assumes "spanningTreeWalk (es[e := (es ! e)\<lparr>isSpanningTreeEdge := True\<rparr>]) u steps v"
    and "e \<notin> fst ` set steps"
  shows "spanningTreeWalk es u steps v"
proof -
  let ?es' = "es[e := (es ! e)\<lparr>isSpanningTreeEdge := True\<rparr>]"
  from assms have w: "walk ?es' u steps v"
    and f: "\<forall>step \<in> set steps. isSpanningTreeEdge (?es' ! fst step)"
    by (simp_all add: spanningTreeWalk_def)
  have "walk es u steps v"
  proof (rule walk_cong [OF w])
    show "length es = length ?es'" by simp
  next
    fix step assume "step \<in> set steps" "fst step < length ?es'"
    then show "source (es ! fst step) = source (?es' ! fst step)
        \<and> target (es ! fst step) = target (?es' ! fst step)"
      by (cases "fst step = e") simp_all
  qed
  moreover have "\<forall>step \<in> set steps. isSpanningTreeEdge (es ! fst step)"
  proof
    fix step assume step: "step \<in> set steps"
    with assms(2) have "fst step \<noteq> e" by auto
    with f step show "isSpanningTreeEdge (es ! fst step)" by auto
  qed
  ultimately show ?thesis by (simp add: spanningTreeWalk_def)
qed

lemma spanningTreeWalk_labels:
  assumes "spanningTreeWalk es u steps v"
    and "\<And>e. e < length es \<Longrightarrow> isSpanningTreeEdge (es ! e) \<Longrightarrow>
       label (source (es ! e)) = label (target (es ! e))"
  shows "label u = label v"
proof (rule walk_labels)
  from assms(1) show "walk es u steps v" by (simp add: spanningTreeWalk_def)
next
  fix step assume "step \<in> set steps" "fst step < length es"
  with assms show "label (source (es ! fst step)) = label (target (es ! fst step))"
    by (simp add: spanningTreeWalk_def)
qed

lemma union_set_nth:
  "u < length ds \<Longrightarrow>
     union_set ds i j ! u = (if ds ! u = ds ! j then ds ! i else ds ! u)"
  by (simp add: union_set_def find_set_def)

lemma union_set_card:
  assumes "i < length ds" "j < length ds" "ds ! i \<noteq> ds ! j"
  shows "Suc (card (set (union_set ds i j))) = card (set ds)"
proof -
  have "set (union_set ds i j) = set ds - {ds ! j}"
    using assms by (auto simp: union_set_def find_set_def)
  moreover have "ds ! j \<in> set ds" using assms(2) by simp
  moreover from this have "0 < card (set ds)" by (auto simp: card_gt_0_iff)
  ultimately show ?thesis by simp
qed


lemma spanningTreeStep_inv:
  assumes inv: "spanningTreeInv n es0 processed state"
    and wf: "\<forall>edge \<in> set es0. source edge < n \<and> target edge < n"
    and e: "e < length es0" "e \<notin> set processed"
  shows "spanningTreeInv n es0 (processed @ [e]) (spanningTreeStep state (e, c))"
proof -
  obtain ds es where state: "state = (ds, es)" by (cases state)
  let ?i0 = "source (es0 ! e)" and ?i1 = "target (es0 ! e)"
  from inv state have len: "length ds = n" and frame: "clearFlags es = es0"
    and flagged: "\<And>f. f < length es0 \<Longrightarrow> isSpanningTreeEdge (es ! f) \<Longrightarrow> f \<in> set processed"
    and rep: "\<And>u. u < n \<Longrightarrow> ds ! u < n \<and> ds ! (ds ! u) = ds ! u"
    and same: "\<And>f. f < length es0 \<Longrightarrow> isSpanningTreeEdge (es ! f) \<Longrightarrow>
        ds ! source (es0 ! f) = ds ! target (es0 ! f)"
    and reach: "\<And>u. u < n \<Longrightarrow> \<exists>steps. spanningTreeWalk es u steps (ds ! u)"
    and acyclic: "\<And>u steps. \<not> spanningTreeCycle es u steps"
    and dag: "acyclic (spanningTreeRel es)"
    and count: "card {f. f < length es0 \<and> isSpanningTreeEdge (es ! f)} + card (set ds) = n"
    and processed: "\<And>f. f \<in> set processed \<Longrightarrow> f < length es0 \<Longrightarrow>
        ds ! source (es0 ! f) = ds ! target (es0 ! f)"
    by (simp_all add: spanningTreeInv_def)
  from frame have lenes: "length es = length es0" by auto
  from clearFlags_eq_source_target [OF frame]
  have src: "\<And>f. f < length es0 \<Longrightarrow> source (es ! f) = source (es0 ! f)"
    and tgt: "\<And>f. f < length es0 \<Longrightarrow> target (es ! f) = target (es0 ! f)" by simp_all
  from wf e(1) have i0: "?i0 < n" and i1: "?i1 < n" by (simp_all add: nth_mem)
  show ?thesis
  proof (cases "ds ! ?i0 = ds ! ?i1")
    case True
    then have step: "spanningTreeStep state (e, c) = (ds, es)"
      using state e(1) by (simp add: spanningTreeStep_def Let_def find_set_def src tgt)
    show ?thesis
      unfolding step spanningTreeInv_def fst_conv snd_conv
      using len frame flagged rep same reach acyclic dag count processed True
      by auto
  next
    case False
    let ?ds = "union_set ds ?i0 ?i1"
    let ?es = "es[e := (es ! e)\<lparr>isSpanningTreeEdge := True\<rparr>]"
    from False have step: "spanningTreeStep state (e, c) = (?ds, ?es)"
      using state e(1) by (simp add: spanningTreeStep_def Let_def find_set_def src tgt)
    have nth: "?ds ! u = (if ds ! u = ds ! ?i1 then ds ! ?i0 else ds ! u)" if "u < n" for u
      using that len by (simp add: union_set_nth)
    have flag': "isSpanningTreeEdge (?es ! f) \<longleftrightarrow> f = e \<or> isSpanningTreeEdge (es ! f)"
      if "f < length es0" for f
      using that lenes by (cases "f = e") simp_all
    have 1: "length ?ds = n" using len by (simp add: union_set_def)
    have 2: "clearFlags ?es = es0" using frame by (simp add: clearFlags_update)
    have 3: "\<forall>f < length es0. isSpanningTreeEdge (?es ! f) \<longrightarrow> f \<in> set (processed @ [e])"
      using flagged flag' by auto
    have 4: "\<forall>u < n. ?ds ! u < n \<and> ?ds ! (?ds ! u) = ?ds ! u"
    proof (intro allI impI)
      fix u assume u: "u < n"
      from rep [OF u] rep [OF i0] rep [OF i1] have "ds ! u < n" "ds ! ?i0 < n"
        "ds ! (ds ! u) = ds ! u" "ds ! (ds ! ?i0) = ds ! ?i0" by simp_all
      with u False show "?ds ! u < n \<and> ?ds ! (?ds ! u) = ?ds ! u"
        by (simp add: nth)
    qed
    have same': "?ds ! source (es0 ! f) = ?ds ! target (es0 ! f)"
      if "f < length es0" "f = e \<or> ds ! source (es0 ! f) = ds ! target (es0 ! f)" for f
    proof -
      from wf that(1) have "source (es0 ! f) < n" "target (es0 ! f) < n"
        by (simp_all add: nth_mem)
      with that(2) i0 i1 show ?thesis by (auto simp: nth)
    qed
    have 5: "\<forall>f < length es0. isSpanningTreeEdge (?es ! f) \<longrightarrow>
        ?ds ! source (es0 ! f) = ?ds ! target (es0 ! f)"
      using same' same flag' by auto
    have 9: "\<forall>f \<in> set (processed @ [e]). f < length es0 \<longrightarrow>
        ?ds ! source (es0 ! f) = ?ds ! target (es0 ! f)"
      using processed same' by auto
    have 6: "\<forall>u < n. \<exists>steps. spanningTreeWalk ?es u steps (?ds ! u)"
    proof (intro allI impI)
      fix u assume u: "u < n"
      from reach [OF u] obtain su where su: "spanningTreeWalk es u su (ds ! u)" ..
      show "\<exists>steps. spanningTreeWalk ?es u steps (?ds ! u)"
      proof (cases "ds ! u = ds ! ?i1")
        case True
        from reach [OF i1] obtain s1 where "spanningTreeWalk es ?i1 s1 (ds ! ?i1)" ..
        from spanningTreeWalk_rev [OF this] obtain r1
          where r1: "spanningTreeWalk es (ds ! ?i1) r1 ?i1" by blast
        from reach [OF i0] obtain s0 where s0: "spanningTreeWalk es ?i0 s0 (ds ! ?i0)" ..
        have edge: "spanningTreeWalk ?es ?i1 [(e, False)] ?i0"
          using e(1) lenes src tgt by (simp add: spanningTreeWalk_def)
        from su True have "spanningTreeWalk ?es u su (ds ! ?i1)"
          by (simp add: spanningTreeWalk_mono)
        moreover from r1 have "spanningTreeWalk ?es (ds ! ?i1) r1 ?i1"
          by (rule spanningTreeWalk_mono)
        moreover note edge
        moreover from s0 have "spanningTreeWalk ?es ?i0 s0 (ds ! ?i0)"
          by (rule spanningTreeWalk_mono)
        ultimately have "spanningTreeWalk ?es u (su @ r1 @ [(e, False)] @ s0) (ds ! ?i0)"
          unfolding spanningTreeWalk_append by blast
        with True u show ?thesis by (auto simp: nth)
      next
        case False
        with su u show ?thesis
          by (auto simp: nth intro: spanningTreeWalk_mono)
      qed
    qed
    have labels: "ds ! u = ds ! v" if "spanningTreeWalk es u steps v" for u v steps
      by (rule spanningTreeWalk_labels [OF that]) (use same src tgt lenes in auto)
    have 7: "\<forall>u steps. \<not> spanningTreeCycle ?es u steps"
    proof (intro allI notI)
      fix u steps assume cyc: "spanningTreeCycle ?es u steps"
      then have ne: "steps \<noteq> []" and dist: "distinct (map fst steps)"
        and w: "spanningTreeWalk ?es u steps u"
        by (simp_all add: spanningTreeCycle_def)
      show False
      proof (cases "e \<in> fst ` set steps")
        case False
        from spanningTreeWalk_antimono [OF w False] ne dist acyclic [of u steps]
        show False by (simp add: spanningTreeCycle_def)
      next
        case True
        then obtain d where "(e, d) \<in> set steps" by auto
        then obtain s1 s2 where split: "steps = s1 @ (e, d) # s2"
          by (auto dest: split_list)
        with dist have notin: "e \<notin> fst ` set (s2 @ s1)" by auto
        from w split obtain x where w1: "spanningTreeWalk ?es u s1 x"
          and w2: "spanningTreeWalk ?es x ((e, d) # s2) u"
          by (auto simp: spanningTreeWalk_append)
        let ?y = "if d then ?i1 else ?i0"
        from w2 e(1) lenes have x: "x = (if d then ?i0 else ?i1)"
          and w3: "spanningTreeWalk ?es ?y s2 u"
          by (auto simp: spanningTreeWalk_def src tgt split: if_splits)
        from w3 w1 have "spanningTreeWalk ?es ?y (s2 @ s1) x"
          unfolding spanningTreeWalk_append by blast
        from labels [OF spanningTreeWalk_antimono [OF this notin]] x
        have "ds ! ?i0 = ds ! ?i1" by (auto split: if_splits)
        with \<open>ds ! ?i0 \<noteq> ds ! ?i1\<close> show False by simp
      qed
    qed
    have 8: "card {f. f < length es0 \<and> isSpanningTreeEdge (?es ! f)} + card (set ?ds) = n"
    proof -
      have "{f. f < length es0 \<and> isSpanningTreeEdge (?es ! f)}
          = insert e {f. f < length es0 \<and> isSpanningTreeEdge (es ! f)}"
        using flag' e(1) by auto
      moreover have "e \<notin> {f. f < length es0 \<and> isSpanningTreeEdge (es ! f)}"
        using flagged e by auto
      moreover have "finite {f. f < length es0 \<and> isSpanningTreeEdge (es ! f)}" by simp
      ultimately have "card {f. f < length es0 \<and> isSpanningTreeEdge (?es ! f)}
          = Suc (card {f. f < length es0 \<and> isSpanningTreeEdge (es ! f)})" by simp
      moreover have "Suc (card (set ?ds)) = card (set ds)"
        using i0 i1 len False by (intro union_set_card) simp_all
      ultimately show ?thesis using count by simp
    qed
    have 10: "acyclic (spanningTreeRel ?es)"
    proof -
      have "spanningTreeRel ?es = insert (?i0, ?i1) (spanningTreeRel es)"
      proof (intro set_eqI iffI)
        fix p assume "p \<in> spanningTreeRel ?es"
        then obtain f where f: "f < length es0" "isSpanningTreeEdge (?es ! f)"
          and p: "p = (source (?es ! f), target (?es ! f))"
          using lenes by (auto simp: spanningTreeRel_def)
        from f(1) lenes have ends: "source (?es ! f) = source (es ! f)"
          "target (?es ! f) = target (es ! f)"
          by (cases "f = e"; simp)+
        from f flag' consider "f = e" | "isSpanningTreeEdge (es ! f)" by blast
        then show "p \<in> insert (?i0, ?i1) (spanningTreeRel es)"
        proof cases
          case 1
          with p ends e(1) show ?thesis by (simp add: src tgt)
        next
          case 2
          with p ends f(1) lenes show ?thesis by (auto simp: spanningTreeRel_def)
        qed
      next
        fix p assume "p \<in> insert (?i0, ?i1) (spanningTreeRel es)"
        then consider "p = (?i0, ?i1)" | "p \<in> spanningTreeRel es" by blast
        then show "p \<in> spanningTreeRel ?es"
        proof cases
          case 1
          have "source (?es ! e) = ?i0" "target (?es ! e) = ?i1" "isSpanningTreeEdge (?es ! e)"
            using e(1) lenes by (simp_all add: src tgt)
          with 1 e(1) lenes show ?thesis
            unfolding spanningTreeRel_def by (intro CollectI exI [of _ e]) simp
        next
          case 2
          then obtain f where f: "f < length es0" "isSpanningTreeEdge (es ! f)"
            and p: "p = (source (es ! f), target (es ! f))"
            using lenes by (auto simp: spanningTreeRel_def)
          from f(1) lenes have "source (?es ! f) = source (es ! f)"
            "target (?es ! f) = target (es ! f)"
            by (cases "f = e"; simp)+
          moreover from f flag' have "isSpanningTreeEdge (?es ! f)" by blast
          ultimately show ?thesis
            using p f(1) lenes unfolding spanningTreeRel_def
            by (intro CollectI exI [of _ f]) simp
        qed
      qed
      moreover have "(?i1, ?i0) \<notin> (spanningTreeRel es)\<^sup>*"
      proof
        assume "(?i1, ?i0) \<in> (spanningTreeRel es)\<^sup>*"
        then have "ds ! ?i1 = ds ! ?i0"
        proof (induction rule: rtrancl_induct)
          case base
          show ?case by simp
        next
          case (step y z)
          from step.hyps(2) obtain f where "f < length es0" "isSpanningTreeEdge (es ! f)"
            "y = source (es ! f)" "z = target (es ! f)"
            using lenes by (auto simp: spanningTreeRel_def)
          with same [of f] have "ds ! y = ds ! z" by (simp add: src tgt)
          with step.IH show ?case by simp
        qed
        with \<open>ds ! ?i0 \<noteq> ds ! ?i1\<close> show False by simp
      qed
      ultimately show ?thesis using dag by (simp add: acyclic_insert)
    qed
    show ?thesis
      unfolding step spanningTreeInv_def fst_conv snd_conv
      using 1 2 3 4 5 6 7 8 9 10 by blast
  qed
qed


lemma foldl_spanningTreeStep_inv:
  assumes "spanningTreeInv n es0 processed state"
    and "\<forall>edge \<in> set es0. source edge < n \<and> target edge < n"
    and "\<forall>p \<in> set tbl. fst p < length es0"
    and "distinct (processed @ map fst tbl)"
  shows "spanningTreeInv n es0 (processed @ map fst tbl) (foldl spanningTreeStep state tbl)"
  using assms
proof (induction tbl arbitrary: processed state)
  case Nil
  then show ?case by simp
next
  case (Cons p tbl)
  obtain e c where p: "p = (e, c)" by (cases p)
  from Cons.prems p have "e < length es0" "e \<notin> set processed" by auto
  from spanningTreeStep_inv [OF Cons.prems(1,2) this]
  have "spanningTreeInv n es0 (processed @ [e]) (spanningTreeStep state p)"
    by (simp add: p)
  from Cons.IH [OF this Cons.prems(2)] Cons.prems(3,4) p show ?case by simp
qed

lemma spanningTreeInv_initial:
  assumes "clearFlags es0 = es0"
  shows "spanningTreeInv n es0 [] (make_sets n, es0)"
proof -
  have noflag: "\<not> isSpanningTreeEdge (es0 ! e)" if "e < length es0" for e
  proof -
    from clearFlags_nth [of e es0] that assms
    have "es0 ! e = (es0 ! e)\<lparr>isSpanningTreeEdge := False\<rparr>" by simp
    then have "isSpanningTreeEdge (es0 ! e) = isSpanningTreeEdge ((es0 ! e)\<lparr>isSpanningTreeEdge := False\<rparr>)"
      by simp
    then show ?thesis by simp
  qed
  have "\<not> spanningTreeCycle es0 u steps" for u steps
  proof
    assume "spanningTreeCycle es0 u steps"
    then obtain step rest where "steps = step # rest" "fst step < length es0"
      "isSpanningTreeEdge (es0 ! fst step)"
      by (cases steps) (auto simp: spanningTreeCycle_def spanningTreeWalk_def)
    with noflag show False by simp
  qed
  moreover have "{e. e < length es0 \<and> isSpanningTreeEdge (es0 ! e)} = {}"
    using noflag by auto
  moreover have "\<exists>steps. spanningTreeWalk es0 u steps u" for u
    by (rule exI [of _ "[]"]) simp
  moreover have "spanningTreeRel es0 = {}"
    using noflag by (auto simp: spanningTreeRel_def)
  then have "acyclic (spanningTreeRel es0)" by (simp add: acyclic_def)
  ultimately show ?thesis
    using assms noflag by (simp add: spanningTreeInv_def make_sets_def)
qed

lemma edgeTable_fst:
  assumes "std_sort_contract std_sort OrderPairsBySecondOnlyGreater"
  shows "fst ` set (edgeTable std_sort es) = {e. e < length es}"
    and "distinct (map fst (edgeTable std_sort es))"
proof -
  let ?xs = "map (\<lambda>e. (e, coverage (es ! e))) [0..<length es]"
  from std_sort_contract_mset [OF assms, of ?xs]
  have "mset (map fst (edgeTable std_sort es)) = mset (map fst ?xs)"
    unfolding edgeTable_def by (simp only: mset_map)
  also have "map fst ?xs = [0..<length es]" by (simp add: comp_def)
  finally have eq: "mset (map fst (edgeTable std_sort es)) = mset [0..<length es]" .
  from mset_eq_setD [OF eq] show "fst ` set (edgeTable std_sort es) = {e. e < length es}"
    by auto
  from mset_eq_imp_distinct_iff [OF eq] show "distinct (map fst (edgeTable std_sort es))"
    by simp
qed

lemma clearFlags_idem [simp]: "clearFlags (clearFlags es) = clearFlags es"
  by (simp add: clearFlags_def)

lemma computeOptimalSpanningTree_inv:
  assumes "wf_graph graph" and sort: "std_sort_contract std_sort OrderPairsBySecondOnlyGreater"
  shows "spanningTreeInv (length (vertices graph)) (clearFlags (edges graph))
     (map fst (edgeTable std_sort (clearFlags (edges graph))))
     (foldl spanningTreeStep (make_sets (length (vertices graph)), clearFlags (edges graph))
        (edgeTable std_sort (clearFlags (edges graph))))"
proof -
  let ?cleared = "clearFlags (edges graph)" and ?n = "length (vertices graph)"
  have wf: "\<forall>edge \<in> set ?cleared. source edge < ?n \<and> target edge < ?n"
    using assms(1) by (auto simp: wf_graph_def clearFlags_def)
  have "spanningTreeInv ?n ?cleared ([] @ map fst (edgeTable std_sort ?cleared))
     (foldl spanningTreeStep (make_sets ?n, ?cleared) (edgeTable std_sort ?cleared))"
  proof (rule foldl_spanningTreeStep_inv [OF spanningTreeInv_initial wf])
    show "clearFlags ?cleared = ?cleared" by simp
    show "\<forall>p \<in> set (edgeTable std_sort ?cleared). fst p < length ?cleared"
      using edgeTable_fst(1) [OF sort, of ?cleared] by auto
    show "distinct ([] @ map fst (edgeTable std_sort ?cleared))"
      using edgeTable_fst(2) [OF sort, of ?cleared] by simp
  qed
  then show ?thesis by simp
qed


lemma spanningTreeStep_other:
  "e \<noteq> fst p \<Longrightarrow> snd (spanningTreeStep state p) ! e = snd state ! e"
  by (simp add: spanningTreeStep_def Let_def)

lemma foldl_spanningTreeStep_other:
  "e \<notin> fst ` set tbl \<Longrightarrow> snd (foldl spanningTreeStep state tbl) ! e = snd state ! e"
  by (induction tbl arbitrary: state) (simp_all add: spanningTreeStep_other)

lemma computeOptimalSpanningTree_edges:
  "edges (computeOptimalSpanningTree std_sort graph) =
     snd (foldl spanningTreeStep (make_sets (length (vertices graph)), clearFlags (edges graph))
        (edgeTable std_sort (clearFlags (edges graph))))"
  by (simp add: computeOptimalSpanningTree_def Let_def clearFlags_def)




lemma components_card:
  assumes "length ds = n"
    and "\<And>u v. u < n \<Longrightarrow> v < n \<Longrightarrow> connected graph u v \<longleftrightarrow> ds ! u = ds ! v"
    and "length (vertices graph) = n"
  shows "card (connectedComponents graph) = card (set ds)"
proof -
  let ?F = "\<lambda>c. {v. v < n \<and> ds ! v = c}"
  have "connectedComponents graph = (\<lambda>u. ?F (ds ! u)) ` {u. u < n}"
    unfolding connectedComponents_def assms(3)
    by (intro image_cong refl) (use assms(2) in auto)
  also have "\<dots> = ?F ` set ds"
    using assms(1) by (auto simp: set_conv_nth image_iff)
  finally have "connectedComponents graph = ?F ` set ds" .
  moreover have "inj_on ?F (set ds)"
  proof (rule inj_onI)
    fix c c' assume c: "c \<in> set ds" and eq: "?F c = ?F c'"
    from c assms(1) obtain u where "u < n" "ds ! u = c" by (auto simp: set_conv_nth)
    then have "u \<in> ?F c" by simp
    with eq have "u \<in> ?F c'" by simp
    with \<open>ds ! u = c\<close> show "c = c'" by simp
  qed
  ultimately show ?thesis by (simp add: card_image)
qed

text \<open>
  C1: after \<open>computeOptimalSpanningTree\<close> the edges with \<open>isSpanningTreeEdge\<close> are as many as
  the vertices less the connected components of the graph, they contain no cycle of the
  undirected graph, and each of them had its end points in two different sets of the
  disjoint sets structure when the loop came to it, that is after the edges before it in
  the table as \<open>std::sort\<close> leaves it, whatever order it gives to edges of equal coverage.
\<close>

theorem computeOptimalSpanningTree_forest:
  assumes "wf_graph graph" and sort: "std_sort_contract std_sort OrderPairsBySecondOnlyGreater"
  shows "card (spanningTreeEdges (computeOptimalSpanningTree std_sort graph))
           = length (vertices graph) - card (connectedComponents graph)
     \<and> card (connectedComponents graph) \<le> length (vertices graph)
     \<and> (\<forall>u steps. \<not> spanningTreeCycle (edges (computeOptimalSpanningTree std_sort graph)) u steps)
     \<and> (\<forall>pre p post.
          edgeTable std_sort (clearFlags (edges graph)) = pre @ p # post
          \<and> fst p \<in> spanningTreeEdges (computeOptimalSpanningTree std_sort graph)
          \<longrightarrow> find_set
                (fst (foldl spanningTreeStep
                   (make_sets (length (vertices graph)), clearFlags (edges graph)) pre))
                (source (edges graph ! fst p))
              \<noteq> find_set
                (fst (foldl spanningTreeStep
                   (make_sets (length (vertices graph)), clearFlags (edges graph)) pre))
                (target (edges graph ! fst p)))"
proof -
  let ?cleared = "clearFlags (edges graph)" and ?n = "length (vertices graph)"
  let ?init = "(make_sets ?n, ?cleared)"
  let ?final = "foldl spanningTreeStep ?init (edgeTable std_sort ?cleared)"
  let ?ds = "fst ?final" and ?result = "snd ?final"
  have wf: "\<forall>edge \<in> set ?cleared. source edge < ?n \<and> target edge < ?n"
    using assms(1) by (auto simp: wf_graph_def clearFlags_def)
  have es: "edges (computeOptimalSpanningTree std_sort graph) = ?result"
    by (rule computeOptimalSpanningTree_edges)
  from computeOptimalSpanningTree_inv [OF assms, unfolded spanningTreeInv_def]
  have len: "length ?ds = ?n" and frame: "clearFlags ?result = ?cleared"
    and reach: "\<And>u. u < ?n \<Longrightarrow> \<exists>steps. spanningTreeWalk ?result u steps (?ds ! u)"
    and acyclic: "\<And>u steps. \<not> spanningTreeCycle ?result u steps"
    and count: "card {f. f < length ?cleared \<and> isSpanningTreeEdge (?result ! f)} + card (set ?ds) = ?n"
    and processed: "\<And>f. f \<in> set (map fst (edgeTable std_sort ?cleared)) \<Longrightarrow> f < length ?cleared \<Longrightarrow>
        ?ds ! source (?cleared ! f) = ?ds ! target (?cleared ! f)"
    by blast+
  from frame have lenes: "length ?result = length (edges graph)" 
    by (metis clearFlags_length)
  have ends0: "source (?cleared ! f) = source (edges graph ! f)"
    "target (?cleared ! f) = target (edges graph ! f)" if "f < length (edges graph)" for f
    using that by (simp_all add: clearFlags_nth)
  have ends: "source (?result ! f) = source (edges graph ! f)"
    "target (?result ! f) = target (edges graph ! f)" if "f < length (edges graph)" for f
    using clearFlags_eq_source_target(1,2) [OF frame, of f] that ends0 by simp_all
  have conn: "connected graph u v \<longleftrightarrow> ?ds ! u = ?ds ! v" if u: "u < ?n" and v: "v < ?n" for u v
  proof
    assume "connected graph u v"
    then obtain steps where w: "walk (edges graph) u steps v" by (auto simp: connected_def)
    show "?ds ! u = ?ds ! v"
    proof (rule walk_labels [OF w])
      fix step assume "fst step < length (edges graph)"
      moreover from this have "fst step \<in> set (map fst (edgeTable std_sort ?cleared))"
        using edgeTable_fst(1) [OF sort, of ?cleared] by simp
      ultimately show "?ds ! source (edges graph ! fst step) = ?ds ! target (edges graph ! fst step)"
        using processed [of "fst step"] ends0 by simp
    qed
  next
    assume eq: "?ds ! u = ?ds ! v"
    from reach [OF u] obtain su where su: "spanningTreeWalk ?result u su (?ds ! u)" ..
    from reach [OF v] obtain sv where "spanningTreeWalk ?result v sv (?ds ! v)" ..
    from spanningTreeWalk_rev [OF this] eq obtain rv
      where "spanningTreeWalk ?result (?ds ! u) rv v" by auto
    with su have "spanningTreeWalk ?result u (su @ rv) v"
      unfolding spanningTreeWalk_append by blast
    then have "walk ?result u (su @ rv) v" by (simp add: spanningTreeWalk_def)
    then have "walk (edges graph) u (su @ rv) v"
      by (rule walk_cong) (use lenes ends in auto)
    then show "connected graph u v" by (auto simp: connected_def)
  qed
  have "card (connectedComponents graph) = card (set ?ds)"
    by (rule components_card [OF len conn refl])
  moreover have "spanningTreeEdges (computeOptimalSpanningTree std_sort graph)
      = {f. f < length ?cleared \<and> isSpanningTreeEdge (?result ! f)}"
    using lenes by (simp add: spanningTreeEdges_def es)
  ultimately have 1: "card (spanningTreeEdges (computeOptimalSpanningTree std_sort graph))
           = ?n - card (connectedComponents graph)"
    and 2: "card (connectedComponents graph) \<le> ?n"
    using count by simp_all
  have 3: "\<forall>u steps. \<not> spanningTreeCycle (edges (computeOptimalSpanningTree std_sort graph)) u steps"
    using acyclic es by simp
  have 4: "find_set (fst (foldl spanningTreeStep ?init pre)) (source (edges graph ! fst p))
      \<noteq> find_set (fst (foldl spanningTreeStep ?init pre)) (target (edges graph ! fst p))"
    if tbl: "edgeTable std_sort ?cleared = pre @ p # post"
      and flagged: "fst p \<in> spanningTreeEdges (computeOptimalSpanningTree std_sort graph)"
    for pre p post
  proof
    let ?state = "foldl spanningTreeStep ?init pre"
    assume eq: "find_set (fst ?state) (source (edges graph ! fst p))
      = find_set (fst ?state) (target (edges graph ! fst p))"
    from edgeTable_fst [OF sort, of ?cleared] tbl
    have lt: "\<forall>q \<in> set pre. fst q < length ?cleared" and e: "fst p < length ?cleared"
      and dist: "distinct ([] @ map fst pre)"
      and notin: "fst p \<notin> set (map fst pre)" "fst p \<notin> fst ` set post"
      by auto
    have "spanningTreeInv ?n ?cleared ([] @ map fst pre) ?state"
      by (rule foldl_spanningTreeStep_inv [OF spanningTreeInv_initial wf lt dist]) simp
    then have fr: "clearFlags (snd ?state) = ?cleared"
      and unflagged: "\<not> isSpanningTreeEdge (snd ?state ! fst p)"
      using e notin(1) by (auto simp: spanningTreeInv_def)
    from clearFlags_eq_source_target(1,2) [OF fr e] e ends0 [of "fst p"]
    have "source (snd ?state ! fst p) = source (edges graph ! fst p)"
      "target (snd ?state ! fst p) = target (edges graph ! fst p)" by simp_all
    with eq have "spanningTreeStep ?state p = ?state"
      by (simp add: spanningTreeStep_def Let_def)
    then have "?result = snd (foldl spanningTreeStep ?state post)"
      by (simp add: tbl)
    with foldl_spanningTreeStep_other [OF notin(2), of ?state]
    have "?result ! fst p = snd ?state ! fst p" by simp
    with unflagged flagged show False by (simp add: spanningTreeEdges_def es)
  qed
  from 1 2 3 4 show ?thesis by blast
qed

lemma example_diamond_flags:
  "map isSpanningTreeEdge (edges (computeOptimalSpanningTree insertionSort diamondGraph))
      = [True, True, False, True]"
  by code_simp

lemma spanningTreeEdges_eq:
  "spanningTreeEdges graph =
     {e \<in> set [0..<length (edges graph)]. map isSpanningTreeEdge (edges graph) ! e}"
  by (auto simp: spanningTreeEdges_def)

lemma example_diamond_edges:
  "spanningTreeEdges (computeOptimalSpanningTree insertionSort diamondGraph) = {0, 1, 3}"
proof -
  from example_diamond_flags
  have "length (map isSpanningTreeEdge (edges (computeOptimalSpanningTree insertionSort diamondGraph))) = 4"
    by simp
  then have len: "length (edges (computeOptimalSpanningTree insertionSort diamondGraph)) = 4" by simp
  have upt: "[0..<4] = [0, 1, 2, 3 :: nat]" by (simp add: upt_rec)
  show ?thesis
    unfolding spanningTreeEdges_eq len example_diamond_flags upt
    by auto
qed

theorem computeOptimalSpanningTree_forest_witness:
  "wf_graph diamondGraph
   \<and> spanningTreeEdges (computeOptimalSpanningTree insertionSort diamondGraph) = {0, 1, 3}
   \<and> card (connectedComponents diamondGraph) = 1
   \<and> (\<forall>u steps. \<not> spanningTreeCycle (edges (computeOptimalSpanningTree insertionSort diamondGraph)) u steps)"
proof -
  have wf: "wf_graph diamondGraph"
    by (simp add: wf_graph_def diamondGraph_def plainEdge_def)
  have n: "length (vertices diamondGraph) = 4" by (simp add: diamondGraph_def)
  from computeOptimalSpanningTree_forest [OF wf insertionSort_contract(2)]
  have "card (spanningTreeEdges (computeOptimalSpanningTree insertionSort diamondGraph))
           = length (vertices diamondGraph) - card (connectedComponents diamondGraph)"
    and "\<forall>u steps. \<not> spanningTreeCycle (edges (computeOptimalSpanningTree insertionSort diamondGraph)) u steps"
    by blast+
  then have "3 = 4 - card (connectedComponents diamondGraph)"
    and cyc: "\<forall>u steps. \<not> spanningTreeCycle (edges (computeOptimalSpanningTree insertionSort diamondGraph)) u steps"
    unfolding example_diamond_edges n by simp_all
  then have "card (connectedComponents diamondGraph) = 1" by arith
  with wf example_diamond_edges cyc show ?thesis by blast
qed

subsection \<open>The best path\<close>

lemma foldl_markBestPathEdge_length [simp]:
  "length (foldl markBestPathEdge es path) = length es"
  by (induction path arbitrary: es) (simp_all add: markBestPathEdge_def)

lemma foldl_markBestPathEdge_nth:
  "e < length es \<Longrightarrow>
     foldl markBestPathEdge es path ! e =
       (es ! e)\<lparr>isSpanningTreeBestPathEdge :=
          isSpanningTreeBestPathEdge (es ! e) \<or> e \<in> set path\<rparr>"
proof (induction path arbitrary: es)
  case Nil
  then show ?case by simp
next
  case (Cons a path)
  then show ?case
    by (cases "a = e") (auto simp: markBestPathEdge_def nth_list_update)
qed





lemma pathLoop_edges:
  assumes "pathLoop graph vertexTable v acc = Some r"
  shows "\<forall>path. r = Inr path \<longrightarrow>
     (\<exists>new. path = acc @ new \<and>
       (\<forall>e \<in> set new. \<exists>v0 v1 d. vertexTable v1 = Some (Some v0, d)
           \<and> boost_edge v0 v1 graph = Some e))"
  using assms
proof (induction graph vertexTable v acc r rule: pathLoop.raw_induct [rotated, consumes 1])
  case (1 loop graph vertexTable v acc r)
  show ?case
  proof (cases v)
    case None
    with "1.hyps" show ?thesis by auto
  next
    case (Some v1)
    show ?thesis
    proof (cases "vertexTable v1")
      case None
      with Some "1.hyps" show ?thesis by auto
    next
      case q: (Some q)
      show ?thesis
      proof (cases "fst q")
        case None
        with q Some "1.hyps" show ?thesis by auto
      next
        case v0: (Some v0)
        show ?thesis
        proof (cases "boost_edge v0 v1 graph")
          case None
          with v0 q Some "1.hyps" show ?thesis by auto
        next
          case e: (Some e)
          with v0 q Some "1.hyps" have "loop graph vertexTable (Some v0) (acc @ [e]) = Some r"
            by simp
          from "1.IH" [OF this] have rec: "\<forall>path. r = Inr path \<longrightarrow>
            (\<exists>new. path = (acc @ [e]) @ new \<and>
              (\<forall>e \<in> set new. \<exists>v0 v1 d. vertexTable v1 = Some (Some v0, d)
                \<and> boost_edge v0 v1 graph = Some e))" .
          show ?thesis
          proof (intro allI impI)
            fix path assume "r = Inr path"
            with rec obtain new where "path = (acc @ [e]) @ new"
              and "\<forall>e \<in> set new. \<exists>v0 v1 d. vertexTable v1 = Some (Some v0, d)
                \<and> boost_edge v0 v1 graph = Some e" by blast
            moreover from q v0 have "vertexTable v1 = Some (Some v0, snd q)"
              by (cases q) simp
            ultimately show "\<exists>new. path = acc @ new \<and>
              (\<forall>e \<in> set new. \<exists>v0 v1 d. vertexTable v1 = Some (Some v0, d)
                \<and> boost_edge v0 v1 graph = Some e)"
              using e by (intro exI [of _ "e # new"]) auto
          qed
        qed
      qed
    qed
  qed
qed

text \<open>
  C10: \<open>computeOptimalSpanningTreeBestPath\<close> changes nothing but the flags
  \<open>isSpanningTreeBestPathEdge\<close>, and the flag of an edge after the call is its flag before
  the call or the edge being on the path just computed: a flag that was set stays set.
  \<open>computeOptimalSpanningTree\<close> gives the same result when its flags are cleared before.
\<close>

theorem bestPath_flags_persist:
  "(computeOptimalSpanningTreeBestPath graph = Some (Inr graph') \<longrightarrow>
      (\<exists>path. longestPath graph = Some (Inr path)
         \<and> vertices graph' = vertices graph
         \<and> vertexMap graph' = vertexMap graph
         \<and> length (edges graph') = length (edges graph)
         \<and> (\<forall>e < length (edges graph).
               edges graph' ! e =
                 (edges graph ! e)\<lparr>isSpanningTreeBestPathEdge :=
                    isSpanningTreeBestPathEdge (edges graph ! e) \<or> e \<in> set path\<rparr>)))
   \<and> computeOptimalSpanningTree std_sort graph =
       computeOptimalSpanningTree std_sort
         (graph\<lparr>edges := clearFlags (edges graph)\<rparr>)"
proof -
  have "computeOptimalSpanningTree std_sort graph =
       computeOptimalSpanningTree std_sort
         (graph\<lparr>edges := clearFlags (edges graph)\<rparr>)"
    by (simp add: computeOptimalSpanningTree_def Let_def)
  moreover have "\<exists>path. longestPath graph = Some (Inr path)
         \<and> vertices graph' = vertices graph
         \<and> vertexMap graph' = vertexMap graph
         \<and> length (edges graph') = length (edges graph)
         \<and> (\<forall>e < length (edges graph).
               edges graph' ! e =
                 (edges graph ! e)\<lparr>isSpanningTreeBestPathEdge :=
                    isSpanningTreeBestPathEdge (edges graph ! e) \<or> e \<in> set path\<rparr>)"
    if "computeOptimalSpanningTreeBestPath graph = Some (Inr graph')"
  proof -
    from that obtain path where path: "longestPath graph = Some (Inr path)"
      and graph': "graph' = graph\<lparr>edges := foldl markBestPathEdge (edges graph) path\<rparr>"
      by (auto simp: computeOptimalSpanningTreeBestPath_def split: option.splits sum.splits)
    from graph' have "\<forall>e < length (edges graph).
               edges graph' ! e =
                 (edges graph ! e)\<lparr>isSpanningTreeBestPathEdge :=
                    isSpanningTreeBestPathEdge (edges graph ! e) \<or> e \<in> set path\<rparr>"
      by (simp add: foldl_markBestPathEdge_nth)
    with path graph' show ?thesis by simp
  qed
  ultimately show ?thesis by blast
qed

lemma example_stale_longestPath: "longestPath staleGraph = Some (Inr [0, 2])"
  by code_simp

lemma example_stale_edges:
  "map_option (map_sum id edges) (computeOptimalSpanningTreeBestPath staleGraph) =
     Some (Inr [(plainEdge 0 1 1)\<lparr>isSpanningTreeEdge := True, isSpanningTreeBestPathEdge := True\<rparr>,
               (plainEdge 0 2 1)\<lparr>isSpanningTreeBestPathEdge := True\<rparr>,
               (plainEdge 1 2 1)\<lparr>isSpanningTreeEdge := True, isSpanningTreeBestPathEdge := True\<rparr>])"
  by code_simp

theorem bestPath_flags_persist_witness:
  "\<exists>graph'. computeOptimalSpanningTreeBestPath staleGraph = Some (Inr graph')
     \<and> longestPath staleGraph = Some (Inr [0, 2])
     \<and> 1 \<notin> set [0, 2 :: nat]
     \<and> isSpanningTreeBestPathEdge (edges staleGraph ! 1)
     \<and> isSpanningTreeBestPathEdge (edges graph' ! 1)"
proof -
  from example_stale_edges obtain graph' where
    run: "computeOptimalSpanningTreeBestPath staleGraph = Some (Inr graph')"
    by (cases "computeOptimalSpanningTreeBestPath staleGraph") (auto simp: map_sum_def split: sum.splits)
  have old: "isSpanningTreeBestPathEdge (edges staleGraph ! 1)"
    by (simp add: staleGraph_def plainEdge_def)
  have len: "1 < length (edges staleGraph)" by (simp add: staleGraph_def)
  from bestPath_flags_persist [of staleGraph graph'] run example_stale_longestPath len
  have "edges graph' ! 1 = (edges staleGraph ! 1)\<lparr>isSpanningTreeBestPathEdge :=
      isSpanningTreeBestPathEdge (edges staleGraph ! 1) \<or> (1 :: nat) \<in> set [0, 2]\<rparr>"
    by fastforce
  with old have "isSpanningTreeBestPathEdge (edges graph' ! 1)" by simp
  with run example_stale_longestPath old show ?thesis by auto
qed

subsection \<open>The topological sort\<close>













subsection \<open>The longest path\<close>

































end
